theory Spec2Isabelle
  imports Complex_Main "HOL-Library.Log_Nat"
begin

section \<open>Street-network perturbation and route efficiency (workshop2.ipynb)\<close>

text \<open>
  The notebook's own logic is the function \<open>calc_efficiency\<close>, the cell that knocks out a
  fraction of the graph's nodes, the list comprehensions that route every origin-destination
  pair and drop the unsolved ones, and the two closing ratios. Everything else is a call
  into NetworkX, OSMnx, pandas or NumPy; each such call is modelled below by what the
  library does at the call, and the comment on the definition says which call it stands for.

  Python's \<open>float\<close> and NumPy's \<open>float64\<close> are idealised as \<open>real\<close>: rounding
  is not modelled, the non-finite results of NumPy arithmetic are. The one exception is
  the product \<open>len(G.nodes) * frac\<close>, whose rounding decides how many nodes are removed:
  there a float is a mantissa and an exponent, and the product is rounded as the machine
  rounds it.
\<close>

subsection \<open>Values\<close>

type_synonym node = int
type_synonym key = nat

text \<open>An attribute dictionary of a node or of an edge, in insertion order.\<close>
type_synonym attrs = "(string \<times> real) list"

datatype error = ValueError | KeyError | IndexError | ZeroDivisionError

text \<open>
  A NumPy \<open>float64\<close>. Dividing by zero raises nothing there (NumPy only warns): the
  quotient is an infinity, or not-a-number for \<open>0 / 0\<close>.
\<close>
datatype npfloat = Fin real | PosInf | NegInf | NaN

text \<open>
  A NetworkX \<open>MultiDiGraph\<close> by value: \<open>g_node\<close> is the node dictionary
  (identifier to attributes, in insertion order, which is the order of \<open>G.nodes\<close>),
  \<open>g_adj\<close> the adjacency \<open>G[u][v][k]\<close> flattened to one table from \<open>(u, v, k)\<close> to
  the edge's attributes.
\<close>
record graph =
  g_node :: "(node \<times> attrs) list"
  g_adj :: "((node \<times> node \<times> key) \<times> attrs) list"

definition nodes_of :: "graph \<Rightarrow> node list" where
  "nodes_of G = map fst (g_node G)"

text \<open>\<open>G.nodes[n][k]\<close>: a missing node or a missing attribute raises \<open>KeyError\<close>.\<close>
definition node_attr :: "graph \<Rightarrow> node \<Rightarrow> string \<Rightarrow> error + real" where
  "node_attr G n k =
     (case map_of (g_node G) n of
        None \<Rightarrow> Inl KeyError
      | Some d \<Rightarrow> (case map_of d k of None \<Rightarrow> Inl KeyError | Some v \<Rightarrow> Inr v))"

text \<open>\<open>G[u][v].items()\<close>: the parallel edges from \<open>u\<close> to \<open>v\<close>, key and attributes.\<close>
definition keydict :: "graph \<Rightarrow> node \<Rightarrow> node \<Rightarrow> (key \<times> attrs) list" where
  "keydict G u v = map (\<lambda>((_, _, k), d). (k, d)) (filter (\<lambda>((a, b, _), _). a = u \<and> b = v) (g_adj G))"

subsection \<open>Great-circle distance\<close>

text \<open>
  \<open>osmnx.distance.great_circle(lat1, lon1, lat2, lon2)\<close>: the haversine formula on a
  sphere of the Earth's mean radius, in metres.
\<close>
definition EARTH_RADIUS_M :: real where
  "EARTH_RADIUS_M = 6371009"

definition deg2rad :: "real \<Rightarrow> real" where
  "deg2rad d = d * pi / 180"

definition great_circle :: "real \<Rightarrow> real \<Rightarrow> real \<Rightarrow> real \<Rightarrow> real" where
  "great_circle lat1 lon1 lat2 lon2 =
     (let y1 = deg2rad lat1;
          y2 = deg2rad lat2;
          delta_y = y2 - y1;
          x1 = deg2rad lon1;
          x2 = deg2rad lon2;
          delta_x = x2 - x1;
          h = (sin (delta_y / 2))\<^sup>2 + cos y1 * cos y2 * (sin (delta_x / 2))\<^sup>2;
          h' = min 1 h;
          arc = 2 * arcsin (sqrt h')
      in arc * EARTH_RADIUS_M)"

subsection \<open>Route efficiency\<close>

text \<open>The \<open>length\<close> of one edge, as \<open>i[1][weight]\<close> reads it.\<close>
definition weight_of :: "key \<times> attrs \<Rightarrow> error + real" where
  "weight_of i = (case map_of (snd i) ''length'' of None \<Rightarrow> Inl KeyError | Some w \<Rightarrow> Inr w)"

text \<open>
  Python's \<open>min(items, key=...)\<close>: the key is computed for every item in turn, and the
  first item of least key wins.
\<close>
primrec min_loop :: "key \<times> attrs \<Rightarrow> real \<Rightarrow> (key \<times> attrs) list \<Rightarrow> error + (key \<times> attrs) \<times> real" where
  "min_loop best bw [] = Inr (best, bw)"
| "min_loop best bw (i # rest) =
     (case weight_of i of
        Inl e \<Rightarrow> Inl e
      | Inr w \<Rightarrow> if w < bw then min_loop i w rest else min_loop best bw rest)"

definition min_item :: "(key \<times> attrs) list \<Rightarrow> error + (key \<times> attrs) \<times> real" where
  "min_item items =
     (case items of
        [] \<Rightarrow> Inl ValueError
      | i # rest \<Rightarrow> (case weight_of i of Inl e \<Rightarrow> Inl e | Inr w \<Rightarrow> min_loop i w rest))"

text \<open>
  One element of \<open>uvk\<close> in \<open>route_to_gdf\<close>:
  \<open>(u, v, min(G[u][v].items(), key=lambda i: i[1][weight])[0])\<close>, together with the
  \<open>length\<close> of the edge it selects. \<open>G[u][v]\<close> raises \<open>KeyError\<close> when no edge runs from
  \<open>u\<close> to \<open>v\<close>.
\<close>
definition select_edge :: "graph \<Rightarrow> node \<times> node \<Rightarrow> error + (node \<times> node \<times> key) \<times> real" where
  "select_edge G p =
     (case p of (u, v) \<Rightarrow>
        (if keydict G u v = [] then Inl KeyError
         else (case min_item (keydict G u v) of
                 Inl e \<Rightarrow> Inl e
               | Inr ((k, d), w) \<Rightarrow> Inr ((u, v, k), w))))"

text \<open>A comprehension that stops at the first exception.\<close>
primrec map_err :: "('a \<Rightarrow> error + 'b) \<Rightarrow> 'a list \<Rightarrow> error + 'b list" where
  "map_err f [] = Inr []"
| "map_err f (x # xs) =
     (case f x of
        Inl e \<Rightarrow> Inl e
      | Inr y \<Rightarrow> (case map_err f xs of Inl e \<Rightarrow> Inl e | Inr ys \<Rightarrow> Inr (y # ys)))"

text \<open>\<open>zip(route[:-1], route[1:])\<close>.\<close>
definition pairs :: "node list \<Rightarrow> (node \<times> node) list" where
  "pairs route = zip (butlast route) (tl route)"

text \<open>The edges of \<open>G.subgraph(route)\<close>: those of \<open>G\<close> with both ends on the route.\<close>
definition subgraph_edges :: "graph \<Rightarrow> node list \<Rightarrow> ((node \<times> node \<times> key) \<times> attrs) list" where
  "subgraph_edges G route =
     filter (\<lambda>((u, v, _), _). u \<in> set route \<and> v \<in> set route) (g_adj G)"

text \<open>
  \<open>ox.routing.route_to_gdf(G, route=route)[attr]\<close> with \<open>attr\<close> at its default
  \<open>"length"\<close>, which is also the default \<open>weight\<close> of \<open>route_to_gdf\<close>; no call in the
  notebook passes another. \<open>route_to_gdf\<close> is

  \<^verbatim>\<open>pairs = zip(route[:-1], route[1:])\<close>
  \<^verbatim>\<open>uvk = ((u, v, min(G[u][v].items(), key=lambda i: i[1][weight])[0]) for u, v in pairs)\<close>
  \<^verbatim>\<open>return convert.graph_to_gdfs(G.subgraph(route), nodes=False).loc[uvk]\<close>

  \<open>graph_to_gdfs\<close> raises \<open>ValueError\<close> on a graph without edges and runs before the
  generator \<open>uvk\<close> is consumed; the column \<open>"length"\<close> exists when some edge of the
  subgraph carries the attribute. The rows selected are the edges of least \<open>length\<close>, so
  the column holds these least lengths, in route order.
\<close>
definition route_lengths :: "graph \<Rightarrow> node list \<Rightarrow> error + real list" where
  "route_lengths G route =
     (if subgraph_edges G route = [] then Inl ValueError
      else (case map_err (select_edge G) (pairs route) of
              Inl e \<Rightarrow> Inl e
            | Inr rows \<Rightarrow>
                (if list_all (\<lambda>(_, d). map_of d ''length'' = None) (subgraph_edges G route)
                 then Inl KeyError
                 else Inr (map snd rows))))"

text \<open>\<open>route[0]\<close> and \<open>route[-1]\<close>.\<close>
definition py_first :: "'a list \<Rightarrow> error + 'a" where
  "py_first xs = (case xs of [] \<Rightarrow> Inl IndexError | x # _ \<Rightarrow> Inr x)"

definition py_last :: "'a list \<Rightarrow> error + 'a" where
  "py_last xs = (case xs of [] \<Rightarrow> Inl IndexError | _ # _ \<Rightarrow> Inr (last xs))"

text \<open>\<open>a / b\<close> on NumPy scalars.\<close>
definition np_truediv :: "real \<Rightarrow> real \<Rightarrow> npfloat" where
  "np_truediv a b =
     (if b = 0 then (if a = 0 then NaN else if 0 < a then PosInf else NegInf)
      else Fin (a / b))"

definition bind_err :: "error + 'a \<Rightarrow> ('a \<Rightarrow> error + 'b) \<Rightarrow> error + 'b" where
  "bind_err m f = (case m of Inl e \<Rightarrow> Inl e | Inr x \<Rightarrow> f x)"

text \<open>
  \<^verbatim>\<open>def calc_efficiency(G, route, attr="length"):\<close>
  \<^verbatim>\<open>    trip_distance = sum(ox.routing.route_to_gdf(G, route=route)[attr])\<close>
  \<^verbatim>\<open>    gc_distance = ox.distance.great_circle(\<close>
  \<^verbatim>\<open>        lat1=G.nodes[route[0]]["y"], lon1=G.nodes[route[0]]["x"],\<close>
  \<^verbatim>\<open>        lat2=G.nodes[route[-1]]["y"], lon2=G.nodes[route[-1]]["x"])\<close>
  \<^verbatim>\<open>    return gc_distance / trip_distance\<close>

  \<open>gc_distance\<close> is a NumPy scalar, so the division is NumPy's.
\<close>
definition calc_efficiency :: "graph \<Rightarrow> node list \<Rightarrow> error + npfloat" where
  "calc_efficiency G route =
     bind_err (route_lengths G route) (\<lambda>lengths.
       let trip_distance = sum_list lengths in
       bind_err (py_first route) (\<lambda>r0.
       bind_err (node_attr G r0 ''y'') (\<lambda>lat1.
       bind_err (node_attr G r0 ''x'') (\<lambda>lon1.
       bind_err (py_last route) (\<lambda>rn.
       bind_err (node_attr G rn ''y'') (\<lambda>lat2.
       bind_err (node_attr G rn ''x'') (\<lambda>lon2.
         Inr (np_truediv (great_circle lat1 lon1 lat2 lon2) trip_distance))))))))"

text \<open>What the specification says of a route, for comparison with the code.\<close>

text \<open>
  The well-formed graphs of the data model: node identifiers are unique, every node
  carries its coordinates, every edge joins two nodes of the graph.
\<close>
definition wf_graph :: "graph \<Rightarrow> bool" where
  "wf_graph G \<longleftrightarrow>
     distinct (nodes_of G) \<and>
     list_all (\<lambda>(n, d). map_of d ''x'' \<noteq> None \<and> map_of d ''y'' \<noteq> None) (g_node G) \<and>
     list_all (\<lambda>((u, v, k), d). u \<in> set (nodes_of G) \<and> v \<in> set (nodes_of G)) (g_adj G)"

text \<open>
  A valid route has at least two nodes, and each consecutive pair is joined by an edge,
  every edge between the two carrying a \<open>length\<close>.
\<close>
definition valid_route :: "graph \<Rightarrow> node list \<Rightarrow> bool" where
  "valid_route G route \<longleftrightarrow>
     2 \<le> length route \<and>
     list_all (\<lambda>(u, v). keydict G u v \<noteq> [] \<and>
                 list_all (\<lambda>(k, d). map_of d ''length'' \<noteq> None) (keydict G u v))
       (pairs route)"

text \<open>
  The length of the edge traversed from \<open>u\<close> to \<open>v\<close>: the \<open>length\<close> attribute of the edge
  between them, the least one where parallel edges exist.
\<close>
definition edge_length :: "graph \<Rightarrow> node \<Rightarrow> node \<Rightarrow> real" where
  "edge_length G u v = Min (set (List.map_filter (\<lambda>(k, d). map_of d ''length'') (keydict G u v)))"

definition spec_trip_distance :: "graph \<Rightarrow> node list \<Rightarrow> real" where
  "spec_trip_distance G route = (\<Sum>(u, v) \<leftarrow> pairs route. edge_length G u v)"


subsection \<open>The number of nodes to remove\<close>

text \<open>
  A binary64 float by its value \<open>m * 2 ^ e\<close>, the mantissa \<open>m\<close> below \<open>2 ^ 53\<close> in
  magnitude. The range of the exponent, and with it overflow and subnormal numbers, is
  not modelled: the products here are of the size of a node count.
\<close>
datatype float64 = Float int int

fun float_val :: "float64 \<Rightarrow> real" where
  "float_val (Float m e) = real_of_int m * 2 powi e"

text \<open>
  \<open>M / 2 ^ k\<close> rounded to the nearest integer, a tie going to the even one: the rounding
  of IEEE 754 that Python's float arithmetic uses.
\<close>
definition round_even :: "int \<Rightarrow> nat \<Rightarrow> int" where
  "round_even M k =
     (let q = M div 2 ^ k; r = M mod 2 ^ k in
      if 2 * r < 2 ^ k then q
      else if 2 ^ k < 2 * r then q + 1
      else if even q then q else q + 1)"

text \<open>The float nearest to \<open>M * 2 ^ e\<close>: at most 53 bits of mantissa are kept.\<close>
definition round53 :: "int \<Rightarrow> int \<Rightarrow> float64" where
  "round53 M e =
     (let k = bitlen \<bar>M\<bar> - 53 in
      if k \<le> 0 then Float M e else Float (round_even M (nat k)) (e + k))"

text \<open>\<open>float(N)\<close>, the conversion Python applies to the integer in \<open>N * frac\<close>.\<close>
definition py_float :: "int \<Rightarrow> float64" where
  "py_float N = round53 N 0"

text \<open>\<open>a * b\<close> on floats: the exact product, rounded.\<close>
fun float_mul :: "float64 \<Rightarrow> float64 \<Rightarrow> float64" where
  "float_mul (Float m1 e1) (Float m2 e2) = round53 (m1 * m2) (e1 + e2)"

text \<open>Python's \<open>int(x)\<close> on a float: truncation towards zero.\<close>
fun int_of_float :: "float64 \<Rightarrow> int" where
  "int_of_float (Float m e) =
     (if 0 \<le> e then m * 2 ^ nat e
      else if 0 \<le> m then m div 2 ^ nat (- e)
      else - ((- m) div 2 ^ nat (- e)))"

text \<open>The same on the reals: what \<open>int\<close> gives of the exact value of its argument.\<close>
definition py_int :: "real \<Rightarrow> int" where
  "py_int r = (if 0 \<le> r then \<lfloor>r\<rfloor> else \<lceil>r\<rceil>)"

text \<open>\<^verbatim>\<open>n = int(len(G.nodes) * frac)\<close>\<close>
definition removal_count :: "nat \<Rightarrow> float64 \<Rightarrow> int" where
  "removal_count N fraction = int_of_float (float_mul (py_float (int N)) fraction)"

subsection \<open>Perturbation\<close>

text \<open>
  \<open>pd.Series(G.nodes).sample(n).index\<close>. \<open>G.nodes\<close> is a mapping, so the series is
  indexed by the node identifiers, in the order of \<open>G.nodes\<close>, and \<open>index\<close> below is that
  index. \<open>sample\<close> refuses a negative \<open>n\<close> and an \<open>n\<close> above the population
  (\<open>ValueError\<close>, sampling being without replacement), and otherwise takes the labels at
  \<open>np.random.permutation(len(index))[:n]\<close>, drawn from NumPy's global generator. The
  generator is the parameter \<open>permutation\<close>: from its state and a size it gives the
  permutation drawn and its next state.
\<close>
definition sample :: "('s \<Rightarrow> nat \<Rightarrow> nat list \<times> 's) \<Rightarrow> 'a list \<Rightarrow> int \<Rightarrow> 's \<Rightarrow> error + 'a list \<times> 's" where
  "sample permutation index n s =
     (if n < 0 then Inl ValueError
      else if int (length index) < n then Inl ValueError
      else (case permutation s (length index) of (p, s') \<Rightarrow>
              (if list_all (\<lambda>i. i < length index) (take (nat n) p)
               then Inr (map (\<lambda>i. index ! i) (take (nat n) p), s')
               else Inl IndexError)))"


text \<open>
  \<open>G.remove_nodes_from(nodes)\<close>: each node goes with every edge into or out of it; a node
  the graph does not have is skipped.
\<close>
definition remove_node :: "graph \<Rightarrow> node \<Rightarrow> graph" where
  "remove_node G n =
     G\<lparr> g_node := filter (\<lambda>(m, _). m \<noteq> n) (g_node G),
        g_adj := filter (\<lambda>((u, v, _), _). u \<noteq> n \<and> v \<noteq> n) (g_adj G) \<rparr>"

definition remove_nodes_from :: "graph \<Rightarrow> node list \<Rightarrow> graph" where
  "remove_nodes_from G ns = foldl remove_node G ns"

text \<open>
  \<^verbatim>\<open>n = int(len(G.nodes) * frac)\<close>
  \<^verbatim>\<open>nodes_to_remove = pd.Series(G.nodes).sample(n).index\<close>
  \<^verbatim>\<open>G_per = G.copy()\<close>
  \<^verbatim>\<open>G_per.remove_nodes_from(nodes_to_remove)\<close>

  The notebook sets \<open>frac = 0.10\<close>; here it is the argument \<open>fraction\<close>, a float. The
  result is the nodes drawn, the perturbed graph and the generator's next state. On values a copy is the graph itself; what the copy
  shares with the original is the subject of the store model further down.
\<close>
definition perturb :: "('s \<Rightarrow> nat \<Rightarrow> nat list \<times> 's) \<Rightarrow> graph \<Rightarrow> float64 \<Rightarrow> 's \<Rightarrow> error + node list \<times> graph \<times> 's" where
  "perturb permutation G fraction s =
     (let n = removal_count (length (nodes_of G)) fraction in
      case sample permutation (nodes_of G) n s of
        Inl e \<Rightarrow> Inl e
      | Inr (nodes_to_remove, s') \<Rightarrow>
          (let G_per = remove_nodes_from G nodes_to_remove
           in Inr (nodes_to_remove, G_per, s')))"


text \<open>What the generator owes: the permutation it draws is one of \<open>0, \<dots>, N - 1\<close>.\<close>
definition draws_permutations :: "('s \<Rightarrow> nat \<Rightarrow> nat list \<times> 's) \<Rightarrow> bool" where
  "draws_permutations permutation \<longleftrightarrow>
     (\<forall>s N. distinct (fst (permutation s N)) \<and> set (fst (permutation s N)) = {..<N})"

subsection \<open>Batch trip simulation\<close>

record od_row =
  home_lng :: real
  home_lat :: real
  work_lng :: real
  work_lat :: real

text \<open>
  \<open>ox.distance.nearest_nodes(G, X, Y)\<close>: for each point the node of \<open>G\<close> nearest to it.
  The search is a spatial tree over the nodes' \<open>x\<close> and \<open>y\<close>; its \<open>metric\<close> (haversine
  on an unprojected graph, Euclidean on a projected one) is a parameter. A graph without
  nodes, or a node without coordinates, makes the call fail.
\<close>
definition node_xy :: "node \<times> attrs \<Rightarrow> error + node \<times> real \<times> real" where
  "node_xy nd =
     (case nd of (n, d) \<Rightarrow>
        (case map_of d ''x'' of
           None \<Rightarrow> Inl ValueError
         | Some x \<Rightarrow> (case map_of d ''y'' of None \<Rightarrow> Inl ValueError | Some y \<Rightarrow> Inr (n, x, y))))"

definition nearest_node :: "(real \<times> real \<Rightarrow> real \<times> real \<Rightarrow> real) \<Rightarrow> (node \<times> real \<times> real) list \<Rightarrow> real \<times> real \<Rightarrow> node" where
  "nearest_node metric pts p = fst (arg_min_list (\<lambda>(n, xy). metric p xy) pts)"

definition nearest_nodes :: "(real \<times> real \<Rightarrow> real \<times> real \<Rightarrow> real) \<Rightarrow> graph \<Rightarrow> (real \<times> real) list \<Rightarrow> error + node list" where
  "nearest_nodes metric G XY =
     (if g_node G = [] then Inl ValueError
      else (case map_err node_xy (g_node G) of
              Inl e \<Rightarrow> Inl e
            | Inr pts \<Rightarrow> Inr (map (nearest_node metric pts) XY)))"

text \<open>\<open>path is not None and len(path) > 1\<close>.\<close>
fun is_solved :: "node list option \<Rightarrow> bool" where
  "is_solved None = False"
| "is_solved (Some path) = (1 < length path)"

text \<open>
  \<^verbatim>\<open>home_nodes = ox.distance.nearest_nodes(G, X=od["home_lng"], Y=od["home_lat"])\<close>
  \<^verbatim>\<open>work_nodes = ox.distance.nearest_nodes(G, X=od["work_lng"], Y=od["work_lat"])\<close>
\<close>
definition home_nodes :: "(real \<times> real \<Rightarrow> real \<times> real \<Rightarrow> real) \<Rightarrow> graph \<Rightarrow> od_row list \<Rightarrow> error + node list" where
  "home_nodes metric G od = nearest_nodes metric G (map (\<lambda>r. (home_lng r, home_lat r)) od)"

definition work_nodes :: "(real \<times> real \<Rightarrow> real \<times> real \<Rightarrow> real) \<Rightarrow> graph \<Rightarrow> od_row list \<Rightarrow> error + node list" where
  "work_nodes metric G od = nearest_nodes metric G (map (\<lambda>r. (work_lng r, work_lat r)) od)"

text \<open>
  \<^verbatim>\<open>paths = [ox.routing.shortest_path(G, orig, dest, weight="travel_time")\<close>
  \<^verbatim>\<open>         for orig, dest in zip(home_nodes, work_nodes)]\<close>
  \<^verbatim>\<open>paths = [path for path in paths if path is not None and len(path) > 1]\<close>

  The routing oracle \<open>shortest_path\<close> is a parameter; it answers \<open>None\<close> when no path
  exists. The first component of the result is the list before the filter, the second
  the solved trips.
\<close>
definition all_paths :: "(graph \<Rightarrow> node \<Rightarrow> node \<Rightarrow> node list option) \<Rightarrow> graph \<Rightarrow> node list \<Rightarrow> node list \<Rightarrow> node list option list" where
  "all_paths shortest_path G homes works =
     map (\<lambda>(orig, dest). shortest_path G orig dest) (zip homes works)"

definition solved :: "node list option list \<Rightarrow> node list option list" where
  "solved paths = filter is_solved paths"

definition simulate_trips ::
  "(graph \<Rightarrow> node \<Rightarrow> node \<Rightarrow> node list option) \<Rightarrow> (real \<times> real \<Rightarrow> real \<times> real \<Rightarrow> real) \<Rightarrow>
   graph \<Rightarrow> od_row list \<Rightarrow> error + node list option list \<times> node list option list" where
  "simulate_trips shortest_path metric G od =
     bind_err (home_nodes metric G od) (\<lambda>homes.
     bind_err (work_nodes metric G od) (\<lambda>works.
       let paths = all_paths shortest_path G homes works
       in Inr (paths, solved paths)))"

subsection \<open>Before and after\<close>

text \<open>\<open>a / b\<close> on Python integers: \<open>ZeroDivisionError\<close> when \<open>b\<close> is zero.\<close>
definition py_truediv :: "nat \<Rightarrow> nat \<Rightarrow> error + real" where
  "py_truediv a b = (if b = 0 then Inl ZeroDivisionError else Inr (real a / real b))"

text \<open>\<^verbatim>\<open>1 - (len(paths_per) / len(paths))\<close>\<close>
definition fraction_unsolvable :: "'a list \<Rightarrow> 'a list \<Rightarrow> error + real" where
  "fraction_unsolvable paths_per paths =
     (case py_truediv (length paths_per) (length paths) of
        Inl e \<Rightarrow> Inl e
      | Inr q \<Rightarrow> Inr (1 - q))"

text \<open>
  \<open>Series.mean()\<close>: not-a-number entries are skipped; no entry left gives not-a-number;
  an infinite entry makes the mean infinite, two of opposite sign make it not-a-number.
\<close>
definition fin_val :: "npfloat \<Rightarrow> real" where
  "fin_val x = (case x of Fin r \<Rightarrow> r | _ \<Rightarrow> 0)"

definition pd_mean :: "npfloat list \<Rightarrow> npfloat" where
  "pd_mean xs =
     (let vals = filter (\<lambda>x. x \<noteq> NaN) xs in
      if vals = [] then NaN
      else if PosInf \<in> set vals \<and> NegInf \<in> set vals then NaN
      else if PosInf \<in> set vals then PosInf
      else if NegInf \<in> set vals then NegInf
      else Fin (sum_list (map fin_val vals) / real (length vals)))"

text \<open>Division and subtraction of NumPy scalars (the sign of a zero is not modelled).\<close>
fun fl_div :: "npfloat \<Rightarrow> npfloat \<Rightarrow> npfloat" where
  "fl_div NaN _ = NaN"
| "fl_div _ NaN = NaN"
| "fl_div (Fin a) (Fin b) = np_truediv a b"
| "fl_div (Fin a) _ = Fin 0"
| "fl_div PosInf (Fin b) = (if 0 \<le> b then PosInf else NegInf)"
| "fl_div NegInf (Fin b) = (if 0 \<le> b then NegInf else PosInf)"
| "fl_div _ _ = NaN"

fun fl_sub :: "npfloat \<Rightarrow> npfloat \<Rightarrow> npfloat" where
  "fl_sub NaN _ = NaN"
| "fl_sub _ NaN = NaN"
| "fl_sub (Fin a) (Fin b) = Fin (a - b)"
| "fl_sub (Fin a) PosInf = NegInf"
| "fl_sub (Fin a) NegInf = PosInf"
| "fl_sub PosInf PosInf = NaN"
| "fl_sub PosInf _ = PosInf"
| "fl_sub NegInf NegInf = NaN"
| "fl_sub NegInf _ = NegInf"

text \<open>\<^verbatim>\<open>1 - (trip_efficiency_per.mean() / trip_efficiency.mean())\<close>\<close>
definition efficiency_loss :: "npfloat list \<Rightarrow> npfloat list \<Rightarrow> npfloat" where
  "efficiency_loss trip_efficiency_per trip_efficiency =
     fl_sub (Fin 1) (fl_div (pd_mean trip_efficiency_per) (pd_mean trip_efficiency))"

subsection \<open>The graph as objects in a store\<close>

























subsection \<open>Example data\<close>

text \<open>
  Three nodes on the equator, the first two at one place, the third on the opposite
  meridian; two parallel edges from node 2 to node 3.
\<close>
definition G_demo :: graph where
  "G_demo =
     \<lparr> g_node = [(1, [(''y'', 0), (''x'', 0)]), (2, [(''y'', 0), (''x'', 0)]),
                 (3, [(''y'', 0), (''x'', 180)])],
       g_adj = [((1, 2, 0), [(''length'', 5)]), ((2, 3, 0), [(''length'', 7)]),
                ((2, 3, 1), [(''length'', 3)])] \<rparr>"

text \<open>A square of four nodes with unit edges around it.\<close>
definition G_square :: graph where
  "G_square =
     \<lparr> g_node = [(10, [(''y'', 0), (''x'', 0)]), (20, [(''y'', 0), (''x'', 1)]),
                 (30, [(''y'', 1), (''x'', 1)]), (40, [(''y'', 1), (''x'', 0)])],
       g_adj = [((10, 20, 0), [(''length'', 1)]), ((20, 30, 0), [(''length'', 1)]),
                ((30, 40, 0), [(''length'', 1)]), ((40, 10, 0), [(''length'', 1)])] \<rparr>"

text \<open>
  A generator for the examples: its state is a counter, the permutation it draws is
  \<open>0, \<dots>, N - 1\<close> rotated by the counter.
\<close>
definition rotating :: "nat \<Rightarrow> nat \<Rightarrow> nat list \<times> nat" where
  "rotating s N = (rotate s [0..<N], Suc s)"

text \<open>Two nodes at one place, joined by an edge of length zero.\<close>
definition G_stacked :: graph where
  "G_stacked =
     \<lparr> g_node = [(1, [(''y'', 0), (''x'', 0)]), (2, [(''y'', 0), (''x'', 0)])],
       g_adj = [((1, 2, 0), [(''length'', 0)])] \<rparr>"

text \<open>
  Two nodes on the equator, half the globe apart, joined by one edge as long as the great
  circle between them.
\<close>
definition G_straight :: graph where
  "G_straight =
     \<lparr> g_node = [(1, [(''y'', 0), (''x'', 0)]), (2, [(''y'', 0), (''x'', 180)])],
       g_adj = [((1, 2, 0), [(''length'', pi * 6371009)])] \<rparr>"

text \<open>One node with a loop on it.\<close>
definition G_loop :: graph where
  "G_loop =
     \<lparr> g_node = [(1, [(''y'', 0), (''x'', 0)])],
       g_adj = [((1, 1, 0), [(''length'', 5)])] \<rparr>"

text \<open>Five nodes, for a fraction whose product with the node count rounds up.\<close>
definition G_five :: graph where
  "G_five =
     \<lparr> g_node = [(1, [(''y'', 0), (''x'', 0)]), (2, [(''y'', 0), (''x'', 1)]),
                 (3, [(''y'', 0), (''x'', 2)]), (4, [(''y'', 0), (''x'', 3)]),
                 (5, [(''y'', 0), (''x'', 4)])],
       g_adj = [((1, 2, 0), [(''length'', 1)]), ((3, 4, 0), [(''length'', 1)]),
                ((4, 5, 0), [(''length'', 1)])] \<rparr>"

text \<open>
  The floats that Python reads from \<open>0.6\<close> and from \<open>0.1\<close>, the second being the
  notebook's \<open>frac\<close>; a half, nine eighths, three halves and minus a half are floats
  as they stand.
\<close>
definition float_0_6 :: float64 where
  "float_0_6 = Float 5404319552844595 (- 53)"

definition float_0_1 :: float64 where
  "float_0_1 = Float 7205759403792794 (- 56)"

text \<open>A metric, a routing oracle and three origin-destination rows for the examples.\<close>
definition manhattan :: "real \<times> real \<Rightarrow> real \<times> real \<Rightarrow> real" where
  "manhattan p q = \<bar>fst p - fst q\<bar> + \<bar>snd p - snd q\<bar>"

definition sp_demo :: "graph \<Rightarrow> node \<Rightarrow> node \<Rightarrow> node list option" where
  "sp_demo G orig dest =
     (if orig = dest then Some [orig]
      else if ((orig, dest, 0), [(''length'', 1)]) \<in> set (g_adj G) then Some [orig, dest]
      else None)"

definition od_demo :: "od_row list" where
  "od_demo =
     [\<lparr> home_lng = 0, home_lat = 0, work_lng = 1, work_lat = 0 \<rparr>,
      \<lparr> home_lng = 1, home_lat = 0, work_lng = 0, work_lat = 1 \<rparr>,
      \<lparr> home_lng = 1, home_lat = 1, work_lng = 1, work_lat = 1 \<rparr>]"



section \<open>Properties\<close>

subsection \<open>The edge selected between two nodes is the shortest\<close>

lemma Min_insert_above:
  fixes w :: real
  assumes "finite A" "w \<le> bw"
  shows "Min (insert bw (insert w A)) = Min (insert w A)"
proof -
  have le: "Min (insert w A) \<le> w"
    by (rule Min_le) (use assms in auto)
  have "Min (insert bw (insert w A)) = min bw (Min (insert w A))"
    by (rule Min.insert) (use assms in auto)
  also have "\<dots> = Min (insert w A)"
    by (rule min.absorb2) (use le assms(2) in linarith)
  finally show ?thesis .
qed

lemma min_loop_Min:
  "list_all (\<lambda>(k, d). map_of d ''length'' \<noteq> None) rest \<Longrightarrow>
   \<exists>b. min_loop best bw rest = Inr (b, Min (insert bw (set (List.map_filter (\<lambda>(k, d). map_of d ''length'') rest))))"
proof (induction rest arbitrary: best bw)
  case Nil then show ?case by (simp add: map_filter_simps)
next
  case (Cons i rest)
  obtain k d where i: "i = (k, d)" by (cases i)
  from Cons.prems i obtain w where w: "map_of d ''length'' = Some w" by auto
  have rest: "list_all (\<lambda>(k, d). map_of d ''length'' \<noteq> None) rest" using Cons.prems by simp
  let ?S = "set (List.map_filter (\<lambda>(k, d). map_of d ''length'') rest)"
  have fin: "finite ?S" by simp
  have wi: "weight_of i = Inr w" using i w by (simp add: weight_of_def)
  have mf: "set (List.map_filter (\<lambda>(k, d). map_of d ''length'') (i # rest)) = insert w ?S"
    using i w by (simp add: map_filter_simps)
  show ?case
  proof (cases "w < bw")
    case True
    from Cons.IH[OF rest, of i w] obtain b where b: "min_loop i w rest = Inr (b, Min (insert w ?S))" by blast
    have "Min (insert bw (insert w ?S)) = Min (insert w ?S)"
      using Min_insert_above[OF fin, of w bw] True by simp
    then show ?thesis using b True wi by (simp only: mf min_loop.simps sum.case if_True) blast
  next
    case False
    from Cons.IH[OF rest, of best bw] obtain b where b: "min_loop best bw rest = Inr (b, Min (insert bw ?S))" by blast
    have "Min (insert w (insert bw ?S)) = Min (insert bw ?S)"
      using Min_insert_above[OF fin, of bw w] False by simp
    then have "Min (insert bw (insert w ?S)) = Min (insert bw ?S)" by (simp only: insert_commute)
    then show ?thesis using b False wi by (simp only: mf min_loop.simps sum.case if_False) blast
  qed
qed

lemma min_item_Min:
  assumes "items \<noteq> []" "list_all (\<lambda>(k, d). map_of d ''length'' \<noteq> None) items"
  shows "\<exists>b. min_item items = Inr (b, Min (set (List.map_filter (\<lambda>(k, d). map_of d ''length'') items)))"
proof -
  from assms obtain i rest where ir: "items = i # rest" by (cases items) auto
  obtain k d where i: "i = (k, d)" by (cases i)
  from assms ir i obtain w where w: "map_of d ''length'' = Some w" by auto
  have rest: "list_all (\<lambda>(k, d). map_of d ''length'' \<noteq> None) rest" using assms ir by simp
  from min_loop_Min[OF rest, of i w] obtain b where
    "min_loop i w rest = Inr (b, Min (insert w (set (List.map_filter (\<lambda>(k, d). map_of d ''length'') rest))))" by blast
  moreover have "set (List.map_filter (\<lambda>(k, d). map_of d ''length'') items) =
      insert w (set (List.map_filter (\<lambda>(k, d). map_of d ''length'') rest))"
    using ir i w by (simp add: map_filter_simps)
  moreover have "min_item items = min_loop i w rest"
    using ir i w by (simp add: min_item_def weight_of_def)
  ultimately show ?thesis by (simp only:) blast
qed

lemma select_edge_length:
  assumes "keydict G u v \<noteq> []" "list_all (\<lambda>(k, d). map_of d ''length'' \<noteq> None) (keydict G u v)"
  shows "\<exists>k. select_edge G (u, v) = Inr ((u, v, k), edge_length G u v)"
proof -
  from min_item_Min[OF assms] obtain b where
    "min_item (keydict G u v) = Inr (b, edge_length G u v)" by (auto simp: edge_length_def)
  then show ?thesis using assms(1) by (cases b) (simp add: select_edge_def)
qed

lemma map_err_select:
  "list_all (\<lambda>(u, v). keydict G u v \<noteq> [] \<and> list_all (\<lambda>(k, d). map_of d ''length'' \<noteq> None) (keydict G u v)) ps \<Longrightarrow>
   \<exists>rows. map_err (select_edge G) ps = Inr rows \<and> map snd rows = map (\<lambda>(u, v). edge_length G u v) ps"
proof (induction ps)
  case Nil then show ?case by simp
next
  case (Cons p ps)
  obtain u v where p: "p = (u, v)" by (cases p)
  from Cons.prems p obtain k where k: "select_edge G (u, v) = Inr ((u, v, k), edge_length G u v)"
    using select_edge_length[of G u v] by auto
  from Cons obtain rows where "map_err (select_edge G) ps = Inr rows" "map snd rows = map (\<lambda>(u, v). edge_length G u v) ps" by auto
  then show ?case using k p by simp
qed


lemma pairs_Cons: "pairs (a # b # rest) = (a, b) # pairs (b # rest)"
  by (simp add: pairs_def)

lemma pairs_on_route: "(u, v) \<in> set (pairs route) \<Longrightarrow> u \<in> set route \<and> v \<in> set route"
  unfolding pairs_def
  by (metis in_set_butlastD list.sel(2) list.set_sel(2) set_zip_leftD set_zip_rightD)

lemma pairs_ends:
  "2 \<le> length route \<Longrightarrow>
   pairs route \<noteq> [] \<and> fst (hd (pairs route)) = hd route \<and> snd (last (pairs route)) = last route"
proof (induction route rule: induct_list012)
  case (3 a b rest)
  show ?case
  proof (cases rest)
    case Nil then show ?thesis by (simp add: pairs_def)
  next
    case (Cons c rest')
    then have "2 \<le> length (b # rest)" by simp
    from 3(2)[OF this] show ?thesis using Cons by (simp add: pairs_Cons)
  qed
qed simp_all

lemma keydict_edge:
  "(k, d) \<in> set (keydict G u v) \<longleftrightarrow> ((u, v, k), d) \<in> set (g_adj G)"
  by (auto simp: keydict_def image_iff split: prod.splits)

lemma keydict_nonempty_edge:
  assumes "keydict G u v \<noteq> []"
  shows "\<exists>k d. ((u, v, k), d) \<in> set (g_adj G)"
proof -
  from assms have "hd (keydict G u v) \<in> set (keydict G u v)" by simp
  moreover obtain k d where "hd (keydict G u v) = (k, d)" by (cases "hd (keydict G u v)")
  ultimately have "((u, v, k), d) \<in> set (g_adj G)" by (simp add: keydict_edge)
  then show ?thesis by blast
qed

lemma wf_edge_nodes:
  "wf_graph G \<Longrightarrow> ((u, v, k), d) \<in> set (g_adj G) \<Longrightarrow> u \<in> set (nodes_of G) \<and> v \<in> set (nodes_of G)"
  by (auto simp: wf_graph_def list_all_iff)

lemma wf_node_coords:
  assumes "wf_graph G" "n \<in> set (nodes_of G)"
  shows "\<exists>lat lon. node_attr G n ''y'' = Inr lat \<and> node_attr G n ''x'' = Inr lon"
proof -
  from assms(2) obtain d where d: "map_of (g_node G) n = Some d"
    by (metis nodes_of_def map_of_eq_None_iff not_Some_eq set_map)
  then have "(n, d) \<in> set (g_node G)" by (rule map_of_SomeD)
  with assms(1) have "map_of d ''x'' \<noteq> None \<and> map_of d ''y'' \<noteq> None"
    by (auto simp: wf_graph_def list_all_iff)
  then show ?thesis using d by (auto simp: node_attr_def)
qed

lemma calc_efficiency_on_valid:
  assumes wf: "wf_graph G" and valid: "valid_route G route"
  shows "\<exists>lat1 lon1 lat2 lon2.
           node_attr G (hd route) ''y'' = Inr lat1 \<and> node_attr G (hd route) ''x'' = Inr lon1 \<and>
           node_attr G (last route) ''y'' = Inr lat2 \<and> node_attr G (last route) ''x'' = Inr lon2 \<and>
           calc_efficiency G route =
             Inr (np_truediv (great_circle lat1 lon1 lat2 lon2) (spec_trip_distance G route))"
proof -
  from valid have len: "2 \<le> length route"
    and all: "list_all (\<lambda>(u, v). keydict G u v \<noteq> [] \<and>
                 list_all (\<lambda>(k, d). map_of d ''length'' \<noteq> None) (keydict G u v)) (pairs route)"
    by (simp_all add: valid_route_def)
  from pairs_ends[OF len] have ne: "pairs route \<noteq> []"
    and first: "fst (hd (pairs route)) = hd route" and lst: "snd (last (pairs route)) = last route"
    by simp_all
  have route_ne: "route \<noteq> []" using len by auto
  \<comment> \<open>the first pair's edge\<close>
  obtain u v where uv: "hd (pairs route) = (u, v)" by (cases "hd (pairs route)")
  have uv_in: "(u, v) \<in> set (pairs route)" using ne uv by (metis hd_in_set)
  with all have kd: "keydict G u v \<noteq> []"
    and kl: "list_all (\<lambda>(k, d). map_of d ''length'' \<noteq> None) (keydict G u v)"
    by (auto simp: list_all_iff)
  from keydict_nonempty_edge[OF kd] obtain k d where e: "((u, v, k), d) \<in> set (g_adj G)" by blast
  have dl: "map_of d ''length'' \<noteq> None"
    using kl e by (auto simp: list_all_iff keydict_edge[symmetric])
  have e_sub: "((u, v, k), d) \<in> set (subgraph_edges G route)"
    using e pairs_on_route[OF uv_in] by (simp add: subgraph_edges_def)
  have sub_ne: "subgraph_edges G route \<noteq> []" using e_sub by auto
  have col: "\<not> list_all (\<lambda>(_, d). map_of d ''length'' = None) (subgraph_edges G route)"
    using e_sub dl by (force simp: list_all_iff)
  from map_err_select[OF all] obtain rows where rows: "map_err (select_edge G) (pairs route) = Inr rows"
    and snd_rows: "map snd rows = map (\<lambda>(u, v). edge_length G u v) (pairs route)" by blast
  have rl: "route_lengths G route = Inr (map (\<lambda>(u, v). edge_length G u v) (pairs route))"
    using sub_ne col rows snd_rows by (simp add: route_lengths_def)
  \<comment> \<open>both ends are nodes of the graph\<close>
  have "hd route = u" using first uv by simp
  then have hd_node: "hd route \<in> set (nodes_of G)" using wf_edge_nodes[OF wf e] by simp
  obtain u' v' where uv': "last (pairs route) = (u', v')" by (cases "last (pairs route)")
  have uv'_in: "(u', v') \<in> set (pairs route)" using ne uv' by (metis last_in_set)
  with all have "keydict G u' v' \<noteq> []" by (auto simp: list_all_iff)
  from keydict_nonempty_edge[OF this] obtain k' d' where "((u', v', k'), d') \<in> set (g_adj G)" by blast
  from wf_edge_nodes[OF wf this] have "v' \<in> set (nodes_of G)" by simp
  moreover have "last route = v'" using lst uv' by simp
  ultimately have last_node: "last route \<in> set (nodes_of G)" by simp
  from wf_node_coords[OF wf hd_node] obtain lat1 lon1 where
    c1: "node_attr G (hd route) ''y'' = Inr lat1" "node_attr G (hd route) ''x'' = Inr lon1" by blast
  from wf_node_coords[OF wf last_node] obtain lat2 lon2 where
    c2: "node_attr G (last route) ''y'' = Inr lat2" "node_attr G (last route) ''x'' = Inr lon2" by blast
  have pf: "py_first route = Inr (hd route)" using route_ne by (cases route) (simp_all add: py_first_def)
  have pl: "py_last route = Inr (last route)" using route_ne by (cases route) (simp_all add: py_last_def)
  have ce: "calc_efficiency G route =
      Inr (np_truediv (great_circle lat1 lon1 lat2 lon2) (spec_trip_distance G route))"
    by (simp add: calc_efficiency_def bind_err_def rl pf pl c1 c2 spec_trip_distance_def)
  with c1 c2 show ?thesis by blast
qed

subsection \<open>The haversine distance is never negative\<close>

lemma cos_product_poly:
  fixes cm sm cd sd :: real
  assumes "sm\<^sup>2 + cm\<^sup>2 = 1" "sd\<^sup>2 + cd\<^sup>2 = 1"
  shows "(cm * cd + sm * sd) * (cm * cd - sm * sd) = cm\<^sup>2 - sd\<^sup>2"
proof -
  from assms have cd: "cd\<^sup>2 = 1 - sd\<^sup>2" and sm: "sm\<^sup>2 = 1 - cm\<^sup>2" by linarith+
  have "(cm * cd + sm * sd) * (cm * cd - sm * sd) = cm\<^sup>2 * cd\<^sup>2 - sm\<^sup>2 * sd\<^sup>2"
    by (simp add: power2_eq_square algebra_simps)
  also have "\<dots> = cm\<^sup>2 * (1 - sd\<^sup>2) - (1 - cm\<^sup>2) * sd\<^sup>2" by (simp only: cd sm)
  also have "\<dots> = cm\<^sup>2 - sd\<^sup>2" by (simp add: algebra_simps)
  finally show ?thesis .
qed

lemma cos_times_cos:
  fixes a b :: real
  shows "cos a * cos b = (cos ((a + b) / 2))\<^sup>2 - (sin ((b - a) / 2))\<^sup>2"
proof -
  have md: "(a + b) / 2 - (b - a) / 2 = a" "(a + b) / 2 + (b - a) / 2 = b"
    by (simp_all add: field_simps)
  have "cos ((a + b) / 2 - (b - a) / 2) * cos ((a + b) / 2 + (b - a) / 2) =
        (cos ((a + b) / 2))\<^sup>2 - (sin ((b - a) / 2))\<^sup>2"
    unfolding cos_add cos_diff by (rule cos_product_poly) simp_all
  then show ?thesis by (simp only: md)
qed

lemma haversine_unit_interval:
  fixes y1 y2 dx :: real
  defines "h \<equiv> (sin ((y2 - y1) / 2))\<^sup>2 + cos y1 * cos y2 * (sin (dx / 2))\<^sup>2"
  shows "0 \<le> h \<and> h \<le> 1"
proof -
  define s where "s = (sin ((y2 - y1) / 2))\<^sup>2"
  define c where "c = (cos ((y1 + y2) / 2))\<^sup>2"
  define t where "t = (sin (dx / 2))\<^sup>2"
  have s: "0 \<le> s" "s \<le> 1" and c: "0 \<le> c" "c \<le> 1" and t: "0 \<le> t" "t \<le> 1"
    by (simp_all add: s_def c_def t_def abs_square_le_1)
  have h: "h = s * (1 - t) + c * t"
    unfolding h_def cos_times_cos[of y1 y2] s_def c_def t_def by (simp add: algebra_simps)
  have "0 \<le> s * (1 - t)" "0 \<le> c * t" using s c t by simp_all
  moreover have "s * (1 - t) \<le> 1 - t"
    using mult_right_mono[of s 1 "1 - t"] s t by simp
  moreover have "c * t \<le> t"
    using mult_right_mono[of c 1 t] c t by simp
  ultimately show ?thesis unfolding h by linarith
qed

lemma great_circle_nonneg: "0 \<le> great_circle lat1 lon1 lat2 lon2"
proof -
  let ?h = "(sin ((deg2rad lat2 - deg2rad lat1) / 2))\<^sup>2 +
            cos (deg2rad lat1) * cos (deg2rad lat2) * (sin ((deg2rad lon2 - deg2rad lon1) / 2))\<^sup>2"
  have h: "0 \<le> ?h" "?h \<le> 1" using haversine_unit_interval by blast+
  then have "0 \<le> sqrt (min 1 ?h)" "sqrt (min 1 ?h) \<le> 1" by simp_all
  then have "0 \<le> arcsin (sqrt (min 1 ?h))" by (intro arcsin_nonneg) simp
  then show ?thesis by (simp add: great_circle_def Let_def EARTH_RADIUS_M_def)
qed


subsection \<open>Route efficiency\<close>

text \<open>
  C1. On a well-formed graph, for every route of at least two nodes whose consecutive
  pairs are joined by edges carrying a \<open>length\<close>, \<open>calc_efficiency\<close> returns the
  great-circle (haversine) distance between the coordinates of the route's first and
  last node divided by the sum of the lengths of the edges traversed; between two nodes
  joined by parallel edges the edge traversed is the shortest. The division is NumPy's,
  so the quotient is the real one whenever the sum is not zero.
\<close>
theorem calc_efficiency_refines_spec:
  assumes wf: "wf_graph G" and valid: "valid_route G route"
  shows "\<exists>lat1 lon1 lat2 lon2.
           node_attr G (hd route) ''y'' = Inr lat1 \<and> node_attr G (hd route) ''x'' = Inr lon1 \<and>
           node_attr G (last route) ''y'' = Inr lat2 \<and> node_attr G (last route) ''x'' = Inr lon2 \<and>
           calc_efficiency G route =
             Inr (np_truediv (great_circle lat1 lon1 lat2 lon2) (spec_trip_distance G route)) \<and>
           (spec_trip_distance G route \<noteq> 0 \<longrightarrow>
              calc_efficiency G route =
                Inr (Fin (great_circle lat1 lon1 lat2 lon2 / spec_trip_distance G route)))"
proof -
  from calc_efficiency_on_valid[OF wf valid] obtain lat1 lon1 lat2 lon2 where
    c: "node_attr G (hd route) ''y'' = Inr lat1" "node_attr G (hd route) ''x'' = Inr lon1"
       "node_attr G (last route) ''y'' = Inr lat2" "node_attr G (last route) ''x'' = Inr lon2"
    and e: "calc_efficiency G route =
              Inr (np_truediv (great_circle lat1 lon1 lat2 lon2) (spec_trip_distance G route))"
    by blast
  have "spec_trip_distance G route \<noteq> 0 \<longrightarrow>
          calc_efficiency G route =
            Inr (Fin (great_circle lat1 lon1 lat2 lon2 / spec_trip_distance G route))"
    using e by (simp add: np_truediv_def)
  with c e show ?thesis by blast
qed


theorem calc_efficiency_refines_spec_witness:
  "wf_graph G_demo \<and> valid_route G_demo [1, 2, 3] \<and>
   spec_trip_distance G_demo [1, 2, 3] = 8 \<and>
   calc_efficiency G_demo [1, 2, 3] = Inr (Fin (great_circle 0 0 0 180 / 8))"
proof -
  have wf: "wf_graph G_demo"
    by (simp add: wf_graph_def G_demo_def nodes_of_def)
  have valid: "valid_route G_demo [1, 2, 3]"
    by (simp add: valid_route_def G_demo_def pairs_def keydict_def)
  have trip: "spec_trip_distance G_demo [1, 2, 3] = 8"
    by (simp add: spec_trip_distance_def G_demo_def pairs_def keydict_def edge_length_def
        map_filter_simps)
  from calc_efficiency_refines_spec[OF wf valid] obtain lat1 lon1 lat2 lon2 where
    c: "node_attr G_demo (hd [1, 2, 3]) ''y'' = Inr lat1"
       "node_attr G_demo (hd [1, 2, 3]) ''x'' = Inr lon1"
       "node_attr G_demo (last [1, 2, 3]) ''y'' = Inr lat2"
       "node_attr G_demo (last [1, 2, 3]) ''x'' = Inr lon2"
    and e: "spec_trip_distance G_demo [1, 2, 3] \<noteq> 0 \<longrightarrow>
            calc_efficiency G_demo [1, 2, 3] =
              Inr (Fin (great_circle lat1 lon1 lat2 lon2 / spec_trip_distance G_demo [1, 2, 3]))"
    by blast
  from c have "lat1 = 0" "lon1 = 0" "lat2 = 0" "lon2 = 180"
    by (simp_all add: node_attr_def G_demo_def)
  with e trip have "calc_efficiency G_demo [1, 2, 3] = Inr (Fin (great_circle 0 0 0 180 / 8))"
    by simp
  with wf valid trip show ?thesis by simp
qed

subsection \<open>Removing a fraction of the nodes\<close>

lemma g_node_foldl_remove:
  "g_node (foldl remove_node G ns) = filter (\<lambda>(m, _). m \<notin> set ns) (g_node G)"
proof (induction ns arbitrary: G)
  case Nil
  show ?case by simp
next
  case (Cons n ns)
  have "g_node (foldl remove_node G (n # ns)) =
        filter (\<lambda>(m, _). m \<notin> set ns) (filter (\<lambda>(m, _). m \<noteq> n) (g_node G))"
    by (simp add: Cons.IH remove_node_def)
  also have "\<dots> = filter (\<lambda>(m, _). m \<notin> set (n # ns)) (g_node G)"
    unfolding filter_filter by (rule filter_cong) auto
  finally show ?case .
qed

lemma g_adj_foldl_remove:
  "g_adj (foldl remove_node G ns) =
   filter (\<lambda>((u, v, _), _). u \<notin> set ns \<and> v \<notin> set ns) (g_adj G)"
proof (induction ns arbitrary: G)
  case Nil
  show ?case by simp
next
  case (Cons n ns)
  have "g_adj (foldl remove_node G (n # ns)) =
        filter (\<lambda>((u, v, _), _). u \<notin> set ns \<and> v \<notin> set ns)
          (filter (\<lambda>((u, v, _), _). u \<noteq> n \<and> v \<noteq> n) (g_adj G))"
    by (simp add: Cons.IH remove_node_def)
  also have "\<dots> = filter (\<lambda>((u, v, _), _). u \<notin> set (n # ns) \<and> v \<notin> set (n # ns)) (g_adj G)"
    unfolding filter_filter by (rule filter_cong) auto
  finally show ?case .
qed

lemma remove_nodes_from_fields:
  "g_node (remove_nodes_from G ns) = filter (\<lambda>(m, _). m \<notin> set ns) (g_node G) \<and>
   g_adj (remove_nodes_from G ns) = filter (\<lambda>((u, v, _), _). u \<notin> set ns \<and> v \<notin> set ns) (g_adj G)"
  unfolding remove_nodes_from_def by (rule conjI[OF g_node_foldl_remove g_adj_foldl_remove])

lemma nodes_of_remove_nodes_from:
  "nodes_of (remove_nodes_from G ns) = filter (\<lambda>m. m \<notin> set ns) (nodes_of G)"
proof -
  have "map fst (filter (\<lambda>(m, _). m \<notin> set ns) xs) = filter (\<lambda>m. m \<notin> set ns) (map fst xs)" for xs :: "(node \<times> attrs) list"
    by (induction xs) auto
  then show ?thesis by (simp add: nodes_of_def remove_nodes_from_fields)
qed

text \<open>
  \<open>int\<close> on a float truncates its value towards zero; rounding to 53 bits never crosses
  an integer that a float can hold, so the float product of the node count and a fraction
  in the unit interval lies between the floor and the ceiling of the exact product.
\<close>
lemma int_of_float_truncates:
  "int_of_float f = (if 0 \<le> float_val f then \<lfloor>float_val f\<rfloor> else \<lceil>float_val f\<rceil>)"
proof (cases f)
  case (Float m e)
  show ?thesis
  proof (cases "0 \<le> e")
    case True
    then have v: "float_val f = real_of_int (m * 2 ^ nat e)"
      using Float by (simp add: power_int_def)
    have i: "int_of_float f = m * 2 ^ nat e" using Float True by simp
    show ?thesis unfolding v i by (simp only: floor_of_int ceiling_of_int if_cancel)
  next
    case False
    define j where "j = nat (- e)"
    have v: "float_val f = real_of_int m / real_of_int (2 ^ j)"
      using Float False by (simp add: power_int_def j_def field_simps)
    have pos: "(0::int) < 2 ^ j" by simp
    show ?thesis
    proof (cases "0 \<le> m")
      case True
      then have "0 \<le> float_val f" unfolding v by simp
      moreover have "\<lfloor>float_val f\<rfloor> = m div 2 ^ j" unfolding v by (rule floor_divide_of_int_eq)
      ultimately show ?thesis using Float False True by (simp add: j_def)
    next
      case neg: False
      then have "float_val f < 0" unfolding v by (simp add: divide_neg_pos)
      moreover have "\<lceil>float_val f\<rceil> = - ((- m) div 2 ^ j)"
      proof -
        have "- float_val f = real_of_int (- m) / real_of_int (2 ^ j)" unfolding v by simp
        then have "\<lfloor>- float_val f\<rfloor> = (- m) div 2 ^ j" by (simp only: floor_divide_of_int_eq)
        then show ?thesis by (simp add: ceiling_def)
      qed
      ultimately show ?thesis using Float False neg by (simp add: j_def)
    qed
  qed
qed

lemma int_of_float_py_int: "int_of_float f = py_int (float_val f)"
  by (simp add: int_of_float_truncates py_int_def)

lemma round_even_near:
  "M div 2 ^ k \<le> round_even M k \<and> round_even M k \<le> M div 2 ^ k + 1 \<and>
   (M mod 2 ^ k = 0 \<longrightarrow> round_even M k = M div 2 ^ k)"
  by (simp add: round_even_def Let_def)

lemma round53_bracket:
  assumes M: "0 \<le> M" and K: "K \<le> 2 ^ 53"
  shows "(real_of_int K \<le> real_of_int M * 2 powi e \<longrightarrow> real_of_int K \<le> float_val (round53 M e)) \<and>
         (real_of_int M * 2 powi e \<le> real_of_int K \<longrightarrow> float_val (round53 M e) \<le> real_of_int K)"
proof (cases "bitlen M - 53 \<le> 0")
  case True
  then have "round53 M e = Float M e" using M by (simp add: round53_def)
  then show ?thesis by simp
next
  case False
  define k where "k = nat (bitlen M - 53)"
  define q where "q = M div 2 ^ k"
  define r where "r = M mod 2 ^ k"
  define q' where "q' = round_even M k"
  define u :: real where "u = 2 powi (e + int k)"
  define x :: real where "x = real_of_int M * 2 powi e"
  have k1: "1 \<le> k" and kb: "int k = bitlen M - 53" using False by (simp_all add: k_def)
  have res: "round53 M e = Float q' (e + int k)"
    using False M kb by (simp add: round53_def q'_def k_def Let_def)
  have val: "float_val (round53 M e) = real_of_int q' * u" by (simp add: res u_def)
  have Mpos: "0 < M" using False M by (cases "M = 0") (simp_all add: bitlen_def floorlog_def)
  have decomp: "M = q * 2 ^ k + r"
    unfolding q_def r_def by (rule div_mult_mod_eq[symmetric])
  have r0: "0 \<le> r" and rk: "r < 2 ^ k" by (simp_all add: r_def)
  from round_even_near[of M k] have q'lo: "q \<le> q'" and q'hi: "q' \<le> q + 1"
    and exact: "r = 0 \<Longrightarrow> q' = q" by (simp_all add: q_def q'_def r_def)
  have "2 ^ nat (bitlen M - 1) \<le> M" using bitlen_bounds[OF Mpos] by simp
  moreover have "nat (bitlen M - 1) = 52 + k" using kb by simp
  ultimately have "(2::int) ^ 52 * 2 ^ k \<le> M" by (simp add: power_add)
  then have "((2::int) ^ 52 * 2 ^ k) div 2 ^ k \<le> M div 2 ^ k"
    by (rule zdiv_mono1) simp
  then have q52: "2 ^ 52 \<le> q" unfolding q_def by simp
  have upos: "0 < u" by (simp add: u_def)
  have pk: "(2::real) ^ k * 2 powi e = u"
    by (simp add: u_def power_int_add mult.commute)
  have xq: "x = real_of_int q * u + real_of_int r * 2 powi e"
  proof -
    have "x = (real_of_int q * 2 ^ k + real_of_int r) * 2 powi e"
      unfolding x_def by (subst decomp) simp
    also have "\<dots> = real_of_int q * (2 ^ k * 2 powi e) + real_of_int r * 2 powi e"
      by (simp add: algebra_simps)
    finally show ?thesis by (simp only: pk)
  qed
  have rem0: "0 \<le> real_of_int r * 2 powi e" using r0 by simp
  have remu: "real_of_int r * 2 powi e < u"
  proof -
    have "real_of_int r < real_of_int (2 ^ k)" using rk by (simp only: of_int_less_iff)
    then have "real_of_int r < 2 ^ k" by simp
    then have "real_of_int r * 2 powi e < 2 ^ k * 2 powi e" by (simp add: mult_strict_right_mono)
    then show ?thesis by (simp only: pk)
  qed
  have x_lo: "real_of_int q * u \<le> x" using xq rem0 by simp
  have x_hi: "x < real_of_int (q + 1) * u" using xq remu by (simp add: algebra_simps)
  have x_eq: "x = real_of_int q * u \<Longrightarrow> r = 0"
  proof -
    assume "x = real_of_int q * u"
    with xq have "real_of_int r * 2 powi e = 0" by simp
    then show "r = 0" by simp
  qed
  have v_lo: "real_of_int q * u \<le> real_of_int q' * u" using q'lo upos by simp
  have v_hi: "real_of_int q' * u \<le> real_of_int (q + 1) * u"
    using q'hi upos by (simp only: mult_le_cancel_right_pos of_int_le_iff)
  show ?thesis
  proof (cases "e + int k \<le> 0")
    case True
    define j where "j = nat (- (e + int k))"
    define J where "J = K * 2 ^ j"
    have uj: "u = 1 / 2 ^ j" using True by (simp add: u_def power_int_def j_def field_simps)
    have KJ: "real_of_int K = real_of_int J * u" by (simp add: J_def uj)
    have A: "real_of_int K \<le> real_of_int q' * u" if "real_of_int K \<le> x"
    proof -
      from that x_hi have "real_of_int J * u < real_of_int (q + 1) * u" unfolding KJ by simp
      then have "J < q + 1" using upos by (simp only: mult_less_cancel_right_pos of_int_less_iff)
      then have "real_of_int J * u \<le> real_of_int q * u"
        using upos by simp
      with v_lo show ?thesis unfolding KJ by simp
    qed
    have B: "real_of_int q' * u \<le> real_of_int K" if "x \<le> real_of_int K"
    proof (cases "r = 0")
      case True
      then have "q' = q" by (rule exact)
      moreover have "x = real_of_int q * u" using xq True by simp
      ultimately show ?thesis using that by simp
    next
      case False
      then have "real_of_int q * u < x" using x_lo x_eq by fastforce
      with that have "real_of_int q * u < real_of_int J * u" unfolding KJ by simp
      then have "q < J" using upos by (simp only: mult_less_cancel_right_pos of_int_less_iff)
      then have "real_of_int (q + 1) * u \<le> real_of_int J * u"
        using upos by simp
      with v_hi show ?thesis unfolding KJ by simp
    qed
    show ?thesis unfolding val using A B by (simp add: x_def)
  next
    case False
    then have "1 \<le> e + int k" by simp
    then have "(2::real) powi 1 \<le> 2 powi (e + int k)" by (intro power_int_increasing) simp_all
    then have u2: "2 \<le> u" by (simp add: u_def)
    have "real_of_int (2 ^ 52) \<le> real_of_int q" using q52 by (simp only: of_int_le_iff)
    then have "(2::real) ^ 52 \<le> real_of_int q" by simp
    then have "2 ^ 52 * 2 \<le> real_of_int q * u" using u2 by (intro mult_mono) simp_all
    moreover have "real_of_int K \<le> 2 ^ 53"
    proof -
      have "real_of_int K \<le> real_of_int (2 ^ 53)" using K by (simp only: of_int_le_iff)
      then show ?thesis by simp
    qed
    ultimately have big: "real_of_int K \<le> real_of_int q * u" by simp
    have A: "real_of_int K \<le> real_of_int q' * u" using big v_lo by simp
    have B: "real_of_int q' * u \<le> real_of_int K" if "x \<le> real_of_int K"
    proof -
      from that big x_lo have "x = real_of_int q * u" by simp
      then have "r = 0" by (rule x_eq)
      then have "q' = q" by (rule exact)
      with \<open>x = real_of_int q * u\<close> that show ?thesis by simp
    qed
    show ?thesis unfolding val using A B by (simp add: x_def)
  qed
qed

lemma round_even_nonneg: "0 \<le> M \<Longrightarrow> 0 \<le> round_even M k"
proof -
  assume "0 \<le> M"
  then have "0 \<le> M div 2 ^ k" by (simp add: pos_imp_zdiv_nonneg_iff)
  with round_even_near[of M k] show ?thesis by linarith
qed

lemma py_float_nonneg:
  assumes "0 \<le> N"
  shows "\<exists>m e. py_float N = Float m e \<and> 0 \<le> m"
  using assms round_even_nonneg[of N]
  by (simp add: py_float_def round53_def Let_def)

lemma py_float_exact:
  assumes "0 \<le> N" "N \<le> 2 ^ 53"
  shows "float_val (py_float N) = real_of_int N"
proof -
  from round53_bracket[OF assms, of 0] have
    "real_of_int N \<le> float_val (round53 N 0)" "float_val (round53 N 0) \<le> real_of_int N"
    by simp_all
  then show ?thesis by (simp add: py_float_def)
qed

lemma float_val_nonneg_mantissa: "0 \<le> float_val (Float m e) \<longleftrightarrow> 0 \<le> m"
proof -
  have "(0::real) < 2 powi e" by simp
  then have "\<not> (2::real) powi e \<le> 0" by linarith
  then show ?thesis by (simp add: zero_le_mult_iff)
qed

lemma removal_count_bracket:
  assumes N: "int N \<le> 2 ^ 53" and f0: "0 \<le> float_val fraction" and f1: "float_val fraction \<le> 1"
  shows "\<lfloor>real N * float_val fraction\<rfloor> \<le> removal_count N fraction \<and>
         removal_count N fraction \<le> \<lceil>real N * float_val fraction\<rceil> \<and>
         0 \<le> removal_count N fraction \<and> removal_count N fraction \<le> int N \<and>
         removal_count N fraction =
           \<lfloor>float_val (float_mul (py_float (int N)) fraction)\<rfloor> \<and>
         real_of_int \<lfloor>real N * float_val fraction\<rfloor> \<le>
           float_val (float_mul (py_float (int N)) fraction) \<and>
         float_val (float_mul (py_float (int N)) fraction) \<le>
           real_of_int \<lceil>real N * float_val fraction\<rceil>"
proof -
  define x where "x = real N * float_val fraction"
  obtain m e where fr: "fraction = Float m e" by (cases fraction)
  from f0 have m0: "0 \<le> m" unfolding fr by (simp only: float_val_nonneg_mantissa)
  from py_float_nonneg[of "int N"] obtain mN eN where pN: "py_float (int N) = Float mN eN"
    and mN0: "0 \<le> mN" by auto
  have vN: "real_of_int mN * 2 powi eN = real N"
    using py_float_exact[of "int N"] N pN by simp
  define p where "p = float_mul (py_float (int N)) fraction"
  have p: "p = round53 (mN * m) (eN + e)" by (simp add: p_def pN fr)
  have M0: "0 \<le> mN * m" using mN0 m0 by simp
  have exact: "real_of_int (mN * m) * 2 powi (eN + e) = x"
  proof -
    have "real_of_int (mN * m) * 2 powi (eN + e) =
          (real_of_int mN * 2 powi eN) * (real_of_int m * 2 powi e)"
      by (simp add: power_int_add)
    then show ?thesis by (simp add: vN x_def fr)
  qed
  have x0: "0 \<le> x" using f0 by (simp add: x_def)
  have xN: "x \<le> real N" using f1 by (simp add: x_def mult_left_le)
  have flo: "\<lfloor>x\<rfloor> \<le> 2 ^ 53" and cei: "\<lceil>x\<rceil> \<le> 2 ^ 53" and ceiN: "\<lceil>x\<rceil> \<le> int N"
  proof -
    show "\<lceil>x\<rceil> \<le> int N" using xN by (simp add: ceiling_le_iff)
    then show "\<lceil>x\<rceil> \<le> 2 ^ 53" using N by linarith
    then show "\<lfloor>x\<rfloor> \<le> 2 ^ 53" using floor_le_ceiling[of x] by linarith
  qed
  from round53_bracket[OF M0 flo, of "eN + e"] have lo: "real_of_int \<lfloor>x\<rfloor> \<le> float_val p"
    unfolding exact p by simp
  from round53_bracket[OF M0 cei, of "eN + e"] have hi: "float_val p \<le> real_of_int \<lceil>x\<rceil>"
    unfolding exact p by simp
  have "0 \<le> \<lfloor>x\<rfloor>" using x0 by simp
  then have "0 \<le> real_of_int \<lfloor>x\<rfloor>" by simp
  with lo have p0: "0 \<le> float_val p" by linarith
  have rc: "removal_count N fraction = \<lfloor>float_val p\<rfloor>"
    using p0 by (simp add: removal_count_def p_def int_of_float_truncates)
  have 1: "\<lfloor>x\<rfloor> \<le> \<lfloor>float_val p\<rfloor>" using lo by (simp add: le_floor_iff)
  have 2: "\<lfloor>float_val p\<rfloor> \<le> \<lceil>x\<rceil>" using hi by (simp add: floor_le_iff)
  have 3: "0 \<le> \<lfloor>float_val p\<rfloor>" using p0 by simp
  show ?thesis using 1 2 3 ceiN rc lo hi unfolding x_def p_def by simp
qed

lemma sample_draw:
  assumes perm: "draws_permutations permutation" and n: "0 \<le> n" "n \<le> int (length index)"
    and d: "distinct index"
  shows "\<exists>xs s'. sample permutation index n s = Inr (xs, s') \<and>
           xs = map (\<lambda>i. index ! i) (take (nat n) (fst (permutation s (length index)))) \<and>
           s' = snd (permutation s (length index)) \<and>
           length xs = nat n \<and> distinct xs \<and> set xs \<subseteq> set index"
proof -
  let ?N = "length index"
  let ?p = "fst (permutation s ?N)"
  from perm have dp: "distinct ?p" and sp: "set ?p = {..<?N}"
    by (simp_all add: draws_permutations_def)
  have lp: "length ?p = ?N" using dp sp by (metis card_lessThan distinct_card)
  let ?t = "take (nat n) ?p"
  have t_sub: "set ?t \<subseteq> {..<?N}" using sp by (metis set_take_subset)
  then have ok: "list_all (\<lambda>i. i < ?N) ?t" by (auto simp: list_all_iff)
  have lt: "length ?t = nat n" using lp n by simp
  have dt: "distinct ?t" using dp by simp
  have inj: "inj_on (\<lambda>i. index ! i) (set ?t)"
  proof (rule inj_onI)
    fix x y assume "x \<in> set ?t" "y \<in> set ?t" "index ! x = index ! y"
    moreover from this t_sub have "x < ?N" "y < ?N" by auto
    ultimately show "x = y" using d by (simp add: nth_eq_iff_index_eq)
  qed
  have dx: "distinct (map (\<lambda>i. index ! i) ?t)" using dt inj by (simp add: distinct_map)
  have sx: "set (map (\<lambda>i. index ! i) ?t) \<subseteq> set index" using t_sub by auto
  obtain p s' where ps: "permutation s ?N = (p, s')" by (cases "permutation s ?N")
  then have "sample permutation index n s = Inr (map (\<lambda>i. index ! i) ?t, s')"
    using n ok by (simp add: sample_def)
  then show ?thesis using ps lt dx sx by simp
qed


lemma rotating_ok: "draws_permutations rotating"
  by (auto simp: draws_permutations_def rotating_def)

lemma perturb_removes_count_core:
  assumes perm: "draws_permutations permutation"
    and n0: "0 \<le> removal_count (length (nodes_of G)) fraction"
    and nN: "removal_count (length (nodes_of G)) fraction \<le> int (length (nodes_of G))"
    and d: "distinct (nodes_of G)"
  shows "\<exists>removed G_per s'.
           perturb permutation G fraction s = Inr (removed, G_per, s') \<and>
           length removed = nat (removal_count (length (nodes_of G)) fraction) \<and>
           distinct removed \<and> set removed \<subseteq> set (nodes_of G) \<and>
           nodes_of G_per = filter (\<lambda>m. m \<notin> set removed) (nodes_of G) \<and>
           length (nodes_of G_per) =
             length (nodes_of G) - nat (removal_count (length (nodes_of G)) fraction) \<and>
           g_adj G_per = filter (\<lambda>((u, v, _), _). u \<notin> set removed \<and> v \<notin> set removed) (g_adj G) \<and>
           list_all (\<lambda>((u, v, _), _). u \<notin> set removed \<and> v \<notin> set removed) (g_adj G_per)"
proof -
  let ?N = "length (nodes_of G)"
  let ?n = "removal_count ?N fraction"
  from sample_draw[OF perm n0 nN d, of s] obtain xs s' where
    smp: "sample permutation (nodes_of G) ?n s = Inr (xs, s')"
    and lx: "length xs = nat ?n" and dx: "distinct xs" and sx: "set xs \<subseteq> set (nodes_of G)"
    by blast
  let ?G' = "remove_nodes_from G xs"
  have run: "perturb permutation G fraction s = Inr (xs, ?G', s')"
    by (simp add: perturb_def smp)
  have nodes': "nodes_of ?G' = filter (\<lambda>m. m \<notin> set xs) (nodes_of G)"
    by (rule nodes_of_remove_nodes_from)
  have dG': "distinct (nodes_of ?G')" using d nodes' by simp
  have "set (nodes_of ?G') = set (nodes_of G) - set xs" unfolding nodes' by auto
  then have "length (nodes_of ?G') = card (set (nodes_of G) - set xs)"
    using distinct_card[OF dG'] by simp
  also have "\<dots> = card (set (nodes_of G)) - card (set xs)"
    using sx by (simp add: card_Diff_subset)
  also have "\<dots> = ?N - nat ?n" using d dx lx by (simp add: distinct_card)
  finally have len': "length (nodes_of ?G') = ?N - nat ?n" .
  have adj': "g_adj ?G' = filter (\<lambda>((u, v, _), _). u \<notin> set xs \<and> v \<notin> set xs) (g_adj G)"
    by (simp add: remove_nodes_from_fields)
  have gone: "list_all (\<lambda>((u, v, _), _). u \<notin> set xs \<and> v \<notin> set xs) (g_adj ?G')"
    unfolding adj' by (auto simp: list_all_iff)
  show ?thesis
    by (intro exI[of _ xs] exI[of _ ?G'] exI[of _ s'] conjI)
       (fact run lx dx sx nodes' len' adj' gone)+
qed

subsection \<open>Every draw is equally likely\<close>

lemma positions_of:
  assumes "set xs \<subseteq> set index"
  shows "\<exists>ps. xs = map (\<lambda>i. index ! i) ps \<and> set ps \<subseteq> {..<length index}"
  using assms
proof (induction xs)
  case Nil
  show ?case by simp
next
  case (Cons x xs)
  then obtain ps where ps: "xs = map (\<lambda>i. index ! i) ps" "set ps \<subseteq> {..<length index}" by auto
  from Cons.prems obtain i where i: "i < length index" "index ! i = x"
    by (auto simp: in_set_conv_nth)
  show ?case
    by (rule exI[of _ "i # ps"]) (use ps i in simp)
qed

lemma count_permutations_with_prefix:
  assumes d: "distinct ps" and sub: "set ps \<subseteq> {..<N}"
  shows "card {p. distinct p \<and> set p = {..<N} \<and> take (length ps) p = ps} = fact (N - length ps)"
proof -
  let ?A = "{..<N}"
  let ?B = "?A - set ps"
  let ?k = "N - length ps"
  let ?Q = "{q. length q = ?k \<and> distinct q \<and> set q \<subseteq> ?B}"
  have cps: "card (set ps) = length ps" using d by (rule distinct_card)
  have lps: "length ps \<le> N" using sub cps card_mono[of ?A "set ps"] by simp
  have cB: "card ?B = ?k" using sub cps by (simp add: card_Diff_subset)
  have eq: "{p. distinct p \<and> set p = ?A \<and> take (length ps) p = ps} = (\<lambda>q. ps @ q) ` ?Q"
  proof (intro set_eqI iffI)
    fix p assume "p \<in> {p. distinct p \<and> set p = ?A \<and> take (length ps) p = ps}"
    then have dp: "distinct p" and sp: "set p = ?A" and tp: "take (length ps) p = ps" by simp_all
    let ?q = "drop (length ps) p"
    have p: "p = ps @ ?q" using tp append_take_drop_id[of "length ps" p] by simp
    have lp: "length p = N" using dp sp by (metis card_lessThan distinct_card)
    have "distinct (ps @ ?q)" using dp p by simp
    then have dq: "distinct ?q" and disj: "set ps \<inter> set ?q = {}" by simp_all
    have "set ?q \<subseteq> ?A" using sp set_drop_subset[of "length ps" p] by simp
    with disj have "set ?q \<subseteq> ?B" by blast
    moreover have "length ?q = ?k" using lp by simp
    ultimately have "?q \<in> ?Q" using dq by simp
    with p show "p \<in> (\<lambda>q. ps @ q) ` ?Q" by blast
  next
    fix p assume "p \<in> (\<lambda>q. ps @ q) ` ?Q"
    then obtain q where p: "p = ps @ q" and lq: "length q = ?k" and dq: "distinct q"
      and sq: "set q \<subseteq> ?B" by auto
    have "card (set q) = card ?B" using dq lq cB by (simp add: distinct_card)
    then have "set q = ?B" using sq by (simp add: card_subset_eq)
    then have "set p = ?A" using p sub by auto
    moreover have "distinct p" using p d dq sq by auto
    moreover have "take (length ps) p = ps" using p by simp
    ultimately show "p \<in> {p. distinct p \<and> set p = ?A \<and> take (length ps) p = ps}" by simp
  qed
  have "card ((\<lambda>q. ps @ q) ` ?Q) = card ?Q" by (rule card_image) (simp add: inj_on_def)
  also have "\<dots> = \<Prod>{card ?B - ?k + 1..card ?B}"
    by (rule card_lists_distinct_length_eq) (simp_all add: cB)
  also have "\<dots> = fact ?k" unfolding cB by (simp add: fact_prod)
  finally show ?thesis unfolding eq .
qed

lemma sample_constant_generator:
  assumes "distinct p" "set p = {..<length index}" "0 \<le> n" "n \<le> int (length index)"
  shows "sample (\<lambda>s N. (p, s)) index n s = Inr (map (\<lambda>i. index ! i) (take (nat n) p), s)"
proof -
  have "set (take (nat n) p) \<subseteq> {..<length index}" using assms(2) set_take_subset[of "nat n" p] by simp
  then have "list_all (\<lambda>i. i < length index) (take (nat n) p)" by (auto simp: list_all_iff)
  then show ?thesis using assms(3,4) by (simp add: sample_def)
qed

lemma sample_uniform:
  assumes di: "distinct index" and n: "0 \<le> n" "n \<le> int (length index)"
    and xs: "length xs = nat n" "distinct xs" "set xs \<subseteq> set index"
  shows "card {p. distinct p \<and> set p = {..<length index} \<and>
                  sample (\<lambda>s N. (p, s)) index n s = Inr (xs, s)} =
         fact (length index - nat n)"
proof -
  let ?N = "length index"
  from positions_of[OF xs(3)] obtain ps where ps: "xs = map (\<lambda>i. index ! i) ps"
    and sub: "set ps \<subseteq> {..<?N}" by blast
  have lps: "length ps = nat n" using ps xs(1) by simp
  have dps: "distinct ps" using xs(2) ps by (simp add: distinct_map)
  have inj: "inj_on (\<lambda>i. index ! i) {..<?N}"
    using di by (auto simp: inj_on_def nth_eq_iff_index_eq)
  have "{p. distinct p \<and> set p = {..<?N} \<and> sample (\<lambda>s N. (p, s)) index n s = Inr (xs, s)} =
        {p. distinct p \<and> set p = {..<?N} \<and> take (length ps) p = ps}"
  proof (intro Collect_cong conj_cong refl)
    fix p assume dp: "distinct p" and sp: "set p = {..<?N}"
    have t: "set (take (nat n) p) \<subseteq> {..<?N}" using sp set_take_subset[of "nat n" p] by simp
    have "sample (\<lambda>s N. (p, s)) index n s = Inr (xs, s) \<longleftrightarrow>
          map (\<lambda>i. index ! i) (take (nat n) p) = map (\<lambda>i. index ! i) ps"
      using sample_constant_generator[OF dp sp n, of s] ps by auto
    also have "\<dots> \<longleftrightarrow> take (nat n) p = ps"
      by (rule inj_on_map_eq_map[OF inj_on_subset[OF inj]]) (use t sub in auto)
    finally show "sample (\<lambda>s N. (p, s)) index n s = Inr (xs, s) \<longleftrightarrow> take (length ps) p = ps"
      using lps by simp
  qed
  then show ?thesis using count_permutations_with_prefix[OF dps sub] lps by simp
qed

lemma perturb_uniform:
  assumes n0: "0 \<le> removal_count (length (nodes_of G)) fraction"
    and nN: "removal_count (length (nodes_of G)) fraction \<le> int (length (nodes_of G))"
    and d: "distinct (nodes_of G)"
    and xs: "length xs = nat (removal_count (length (nodes_of G)) fraction)" "distinct xs"
      "set xs \<subseteq> set (nodes_of G)"
  shows "card {p. distinct p \<and> set p = {..<length (nodes_of G)} \<and>
                  perturb (\<lambda>s N. (p, s)) G fraction s = Inr (xs, remove_nodes_from G xs, s)} =
         fact (length (nodes_of G) - nat (removal_count (length (nodes_of G)) fraction))"
proof -
  let ?N = "length (nodes_of G)"
  let ?n = "removal_count ?N fraction"
  have "{p. distinct p \<and> set p = {..<?N} \<and>
            perturb (\<lambda>s N. (p, s)) G fraction s = Inr (xs, remove_nodes_from G xs, s)} =
        {p. distinct p \<and> set p = {..<?N} \<and>
            sample (\<lambda>s N. (p, s)) (nodes_of G) ?n s = Inr (xs, s)}"
  proof (intro Collect_cong conj_cong refl)
    fix p assume dp: "distinct p" and sp: "set p = {..<?N}"
    from sample_constant_generator[OF dp sp n0 nN, of s]
    obtain ys where ys: "sample (\<lambda>s N. (p, s)) (nodes_of G) ?n s = Inr (ys, s)" by blast
    then have "perturb (\<lambda>s N. (p, s)) G fraction s = Inr (ys, remove_nodes_from G ys, s)"
      by (simp add: perturb_def)
    then show "perturb (\<lambda>s N. (p, s)) G fraction s = Inr (xs, remove_nodes_from G xs, s) \<longleftrightarrow>
               sample (\<lambda>s N. (p, s)) (nodes_of G) ?n s = Inr (xs, s)"
      using ys by auto
  qed
  then show ?thesis using sample_uniform[OF d n0 nN xs, of s] by simp
qed

lemma removal_count_floor_or_next:
  assumes N: "int N \<le> 2 ^ 53" and f: "0 \<le> float_val fraction" "float_val fraction \<le> 1"
  shows "removal_count N fraction = \<lfloor>real N * float_val fraction\<rfloor> \<or>
         removal_count N fraction = \<lfloor>real N * float_val fraction\<rfloor> + 1 \<and>
         float_val (float_mul (py_float (int N)) fraction) =
           real_of_int (\<lfloor>real N * float_val fraction\<rfloor> + 1)"
proof -
  let ?x = "real N * float_val fraction"
  let ?p = "float_val (float_mul (py_float (int N)) fraction)"
  let ?n = "removal_count N fraction"
  from removal_count_bracket[OF N f] have lo: "\<lfloor>?x\<rfloor> \<le> ?n" and hi: "?n \<le> \<lceil>?x\<rceil>"
    and fl: "?n = \<lfloor>?p\<rfloor>" and phi: "?p \<le> real_of_int \<lceil>?x\<rceil>" by blast+
  have c: "\<lceil>?x\<rceil> \<le> \<lfloor>?x\<rfloor> + 1" using ceiling_diff_floor_le_1[of ?x] by linarith
  show ?thesis
  proof (cases "?n = \<lfloor>?x\<rfloor>")
    case True
    then show ?thesis by simp
  next
    case False
    with lo hi c have n: "?n = \<lfloor>?x\<rfloor> + 1" and ce: "\<lceil>?x\<rceil> = \<lfloor>?x\<rfloor> + 1" by linarith+
    have "real_of_int \<lfloor>?p\<rfloor> \<le> ?p" by (rule of_int_floor_le)
    then have "real_of_int (\<lfloor>?x\<rfloor> + 1) \<le> ?p" using fl n by simp
    moreover have "?p \<le> real_of_int (\<lfloor>?x\<rfloor> + 1)" using phi ce by simp
    ultimately have "?p = real_of_int (\<lfloor>?x\<rfloor> + 1)" by (rule order.antisym[rotated])
    with n show ?thesis by simp
  qed
qed

text \<open>
  C3, as the code has it. The number of nodes to remove is \<open>n = int(len(G.nodes) * frac)\<close>,
  the product being the float product. With a fraction \<open>f\<close> between 0 and 1, on a graph
  of \<open>N\<close> distinct nodes, \<open>N\<close> at most \<open>2 ^ 53\<close>, and a generator that draws permutations, the
  perturbation succeeds and removes exactly \<open>n\<close> distinct nodes of the graph, drawn
  without replacement as the first \<open>n\<close> entries of the permutation. \<open>n\<close> is \<open>\<lfloor>f N\<rfloor>\<close>, or
  \<open>\<lfloor>f N\<rfloor> + 1\<close> when the float product is rounded up to that integer. The nodes left
  are the others, and the edges left are exactly those with neither end removed, so no
  edge touching a removed node remains. The draw is uniform: every list of \<open>n\<close> distinct
  nodes is what the perturbation removes under the same number of permutations,
  \<open>(N - n)!\<close> of the \<open>N!\<close>, so a generator whose permutation is uniform removes every such
  list, and every such set, equally often.
\<close>
theorem perturb_removes_float_product:
  assumes perm: "draws_permutations permutation"
    and f: "0 \<le> float_val fraction" "float_val fraction \<le> 1"
    and d: "distinct (nodes_of G)"
    and N: "int (length (nodes_of G)) \<le> 2 ^ 53"
  shows "(\<exists>removed G_per s'.
           perturb permutation G fraction s = Inr (removed, G_per, s') \<and>
           length removed = nat (removal_count (length (nodes_of G)) fraction) \<and>
           distinct removed \<and> set removed \<subseteq> set (nodes_of G) \<and>
           nodes_of G_per = filter (\<lambda>m. m \<notin> set removed) (nodes_of G) \<and>
           length (nodes_of G_per) =
             length (nodes_of G) - nat (removal_count (length (nodes_of G)) fraction) \<and>
           g_adj G_per = filter (\<lambda>((u, v, _), _). u \<notin> set removed \<and> v \<notin> set removed) (g_adj G) \<and>
           list_all (\<lambda>((u, v, _), _). u \<notin> set removed \<and> v \<notin> set removed) (g_adj G_per)) \<and>
         0 \<le> removal_count (length (nodes_of G)) fraction \<and>
         (removal_count (length (nodes_of G)) fraction =
            \<lfloor>real (length (nodes_of G)) * float_val fraction\<rfloor> \<or>
          removal_count (length (nodes_of G)) fraction =
            \<lfloor>real (length (nodes_of G)) * float_val fraction\<rfloor> + 1 \<and>
          float_val (float_mul (py_float (int (length (nodes_of G)))) fraction) =
            real_of_int (\<lfloor>real (length (nodes_of G)) * float_val fraction\<rfloor> + 1)) \<and>
         (\<forall>xs. length xs = nat (removal_count (length (nodes_of G)) fraction) \<and> distinct xs \<and>
               set xs \<subseteq> set (nodes_of G) \<longrightarrow>
               card {p. distinct p \<and> set p = {..<length (nodes_of G)} \<and>
                        perturb (\<lambda>s N. (p, s)) G fraction s = Inr (xs, remove_nodes_from G xs, s)} =
               fact (length (nodes_of G) - nat (removal_count (length (nodes_of G)) fraction)))"
proof -
  from removal_count_bracket[OF N f]
  have n0: "0 \<le> removal_count (length (nodes_of G)) fraction"
    and nN: "removal_count (length (nodes_of G)) fraction \<le> int (length (nodes_of G))"
    by blast+
  show ?thesis
  proof (intro conjI allI impI)
    show "\<exists>removed G_per s'.
           perturb permutation G fraction s = Inr (removed, G_per, s') \<and>
           length removed = nat (removal_count (length (nodes_of G)) fraction) \<and>
           distinct removed \<and> set removed \<subseteq> set (nodes_of G) \<and>
           nodes_of G_per = filter (\<lambda>m. m \<notin> set removed) (nodes_of G) \<and>
           length (nodes_of G_per) =
             length (nodes_of G) - nat (removal_count (length (nodes_of G)) fraction) \<and>
           g_adj G_per = filter (\<lambda>((u, v, _), _). u \<notin> set removed \<and> v \<notin> set removed) (g_adj G) \<and>
           list_all (\<lambda>((u, v, _), _). u \<notin> set removed \<and> v \<notin> set removed) (g_adj G_per)"
      by (rule perturb_removes_count_core[OF perm n0 nN d])
  next
    show "0 \<le> removal_count (length (nodes_of G)) fraction" by (rule n0)
  next
    show "removal_count (length (nodes_of G)) fraction =
            \<lfloor>real (length (nodes_of G)) * float_val fraction\<rfloor> \<or>
          removal_count (length (nodes_of G)) fraction =
            \<lfloor>real (length (nodes_of G)) * float_val fraction\<rfloor> + 1 \<and>
          float_val (float_mul (py_float (int (length (nodes_of G)))) fraction) =
            real_of_int (\<lfloor>real (length (nodes_of G)) * float_val fraction\<rfloor> + 1)"
      by (rule removal_count_floor_or_next[OF N f])
  next
    fix xs
    assume a: "length xs = nat (removal_count (length (nodes_of G)) fraction) \<and> distinct xs \<and>
               set xs \<subseteq> set (nodes_of G)"
    then have x: "length xs = nat (removal_count (length (nodes_of G)) fraction)" "distinct xs"
      "set xs \<subseteq> set (nodes_of G)" by simp_all
    show "card {p. distinct p \<and> set p = {..<length (nodes_of G)} \<and>
                   perturb (\<lambda>s N. (p, s)) G fraction s = Inr (xs, remove_nodes_from G xs, s)} =
          fact (length (nodes_of G) - nat (removal_count (length (nodes_of G)) fraction))"
      by (rule perturb_uniform[OF n0 nN d x])
  qed
qed

text \<open>
  The count is not always the floor of the exact product. The float that Python reads
  from \<open>0.6\<close> lies below six tenths, so five times its value lies below 3 and the floor
  is 2; the float product is rounded to 3.0, and three of the five nodes are removed.
\<close>
theorem float_product_counterexample:
  "0 \<le> float_val float_0_6 \<and> float_val float_0_6 \<le> 1 \<and>
   distinct (nodes_of G_five) \<and>
   \<lfloor>float_val float_0_6 * real (length (nodes_of G_five))\<rfloor> = 2 \<and>
   perturb rotating G_five float_0_6 0 =
     Inr ([1, 2, 3],
          \<lparr> g_node = [(4, [(''y'', 0), (''x'', 3)]), (5, [(''y'', 0), (''x'', 4)])],
            g_adj = [((4, 5, 0), [(''length'', 1)])] \<rparr>, 1)"
proof -
  have l: "length (nodes_of G_five) = 5" by (simp add: G_five_def nodes_of_def)
  have rc: "removal_count 5 float_0_6 = 3" by code_simp
  have 1: "0 \<le> float_val float_0_6" "float_val float_0_6 \<le> 1"
    by (simp_all add: float_0_6_def)
  have 2: "distinct (nodes_of G_five)" by (simp add: G_five_def nodes_of_def)
  have 3: "\<lfloor>float_val float_0_6 * real (length (nodes_of G_five))\<rfloor> = 2"
    unfolding l by (simp add: float_0_6_def)
  have s: "sample rotating (nodes_of G_five) 3 0 = Inr ([1, 2, 3], 1)"
    by (simp add: sample_def rotating_def G_five_def nodes_of_def)
  have r: "remove_nodes_from G_five [1, 2, 3] =
          \<lparr> g_node = [(4, [(''y'', 0), (''x'', 3)]), (5, [(''y'', 0), (''x'', 4)])],
            g_adj = [((4, 5, 0), [(''length'', 1)])] \<rparr>"
    by (simp add: remove_nodes_from_def remove_node_def G_five_def)
  have 4: "perturb rotating G_five float_0_6 0 =
     Inr ([1, 2, 3],
          \<lparr> g_node = [(4, [(''y'', 0), (''x'', 3)]), (5, [(''y'', 0), (''x'', 4)])],
            g_adj = [((4, 5, 0), [(''length'', 1)])] \<rparr>, 1)"
    unfolding perturb_def l rc by (simp add: s r)
  show ?thesis by (intro conjI) (fact 1 2 3 4)+
qed

theorem perturb_removes_float_product_witness:
  "draws_permutations rotating \<and> 0 \<le> float_val (Float 1 (- 1)) \<and> float_val (Float 1 (- 1)) \<le> 1 \<and>
   distinct (nodes_of G_square) \<and> int (length (nodes_of G_square)) \<le> 2 ^ 53 \<and>
   perturb rotating G_square (Float 1 (- 1)) 0 =
     Inr ([10, 20],
          \<lparr> g_node = [(30, [(''y'', 1), (''x'', 1)]), (40, [(''y'', 1), (''x'', 0)])],
            g_adj = [((30, 40, 0), [(''length'', 1)])] \<rparr>, 1) \<and>
   length [10, 20 :: node] = nat (removal_count (length (nodes_of G_square)) (Float 1 (- 1))) \<and>
   removal_count (length (nodes_of G_square)) (Float 1 (- 1)) = 2 \<and>
   nodes_of \<lparr> g_node = [(30, [(''y'', 1), (''x'', 1)]), (40, [(''y'', 1), (''x'', 0)])],
              g_adj = [((30, 40, 0), [(''length'', 1)])] \<rparr> =
     filter (\<lambda>m. m \<notin> set [10, 20]) (nodes_of G_square) \<and>
   set [30, 40 :: node] \<subseteq> set (nodes_of G_square) \<and>
   card {p. distinct p \<and> set p = {..<length (nodes_of G_square)} \<and>
            perturb (\<lambda>s N. (p, s)) G_square (Float 1 (- 1)) (0::nat) =
              Inr ([30, 40], remove_nodes_from G_square [30, 40], 0)} = 2"
proof -
  have d: "distinct (nodes_of G_square)" by (simp add: G_square_def nodes_of_def)
  have f: "0 \<le> float_val (Float 1 (- 1))" "float_val (Float 1 (- 1)) \<le> 1" by simp_all
  have l: "length (nodes_of G_square) = 4" by (simp add: G_square_def nodes_of_def)
  have N: "int (length (nodes_of G_square)) \<le> 2 ^ 53" unfolding l by simp
  have rc4: "removal_count 4 (Float 1 (- 1)) = 2" by code_simp
  have rc: "removal_count (length (nodes_of G_square)) (Float 1 (- 1)) = 2"
    unfolding l by (rule rc4)
  have smp: "sample rotating (nodes_of G_square) 2 0 = Inr ([10, 20], 1)"
    by (simp add: sample_def rotating_def G_square_def nodes_of_def)
  have rem: "remove_nodes_from G_square [10, 20] =
          \<lparr> g_node = [(30, [(''y'', 1), (''x'', 1)]), (40, [(''y'', 1), (''x'', 0)])],
            g_adj = [((30, 40, 0), [(''length'', 1)])] \<rparr>"
    by (simp add: remove_nodes_from_def remove_node_def G_square_def)
  have run: "perturb rotating G_square (Float 1 (- 1)) 0 =
     Inr ([10, 20],
          \<lparr> g_node = [(30, [(''y'', 1), (''x'', 1)]), (40, [(''y'', 1), (''x'', 0)])],
            g_adj = [((30, 40, 0), [(''length'', 1)])] \<rparr>, 1)"
    unfolding perturb_def rc by (simp add: smp rem)
  note t = perturb_removes_float_product[OF rotating_ok f d N, of 0]
  from t obtain removed G_per s' where
    r: "perturb rotating G_square (Float 1 (- 1)) 0 = Inr (removed, G_per, s')"
    and len: "length removed = nat (removal_count (length (nodes_of G_square)) (Float 1 (- 1)))"
    and nodes: "nodes_of G_per = filter (\<lambda>m. m \<notin> set removed) (nodes_of G_square)"
    by blast
  from r run have "removed = [10, 20]"
    and "G_per = \<lparr> g_node = [(30, [(''y'', 1), (''x'', 1)]), (40, [(''y'', 1), (''x'', 0)])],
                    g_adj = [((30, 40, 0), [(''length'', 1)])] \<rparr>"
    by simp_all
  with len nodes
  have 1: "length [10, 20 :: node] = nat (removal_count (length (nodes_of G_square)) (Float 1 (- 1)))"
    and 2: "nodes_of \<lparr> g_node = [(30, [(''y'', 1), (''x'', 1)]), (40, [(''y'', 1), (''x'', 0)])],
              g_adj = [((30, 40, 0), [(''length'', 1)])] \<rparr> =
            filter (\<lambda>m. m \<notin> set [10, 20]) (nodes_of G_square)"
    by simp_all
  have x: "length [30, 40 :: node] = nat (removal_count (length (nodes_of G_square)) (Float 1 (- 1))) \<and>
           distinct [30, 40 :: node] \<and> set [30, 40] \<subseteq> set (nodes_of G_square)"
    unfolding rc by (simp add: G_square_def nodes_of_def)
  then have 3: "set [30, 40 :: node] \<subseteq> set (nodes_of G_square)" by simp
  from t x have "card {p. distinct p \<and> set p = {..<length (nodes_of G_square)} \<and>
            perturb (\<lambda>s N. (p, s)) G_square (Float 1 (- 1)) (0::nat) =
              Inr ([30, 40], remove_nodes_from G_square [30, 40], 0)} =
        fact (length (nodes_of G_square) - nat (removal_count (length (nodes_of G_square)) (Float 1 (- 1))))"
    by blast
  then have 4: "card {p. distinct p \<and> set p = {..<length (nodes_of G_square)} \<and>
            perturb (\<lambda>s N. (p, s)) G_square (Float 1 (- 1)) (0::nat) =
              Inr ([30, 40], remove_nodes_from G_square [30, 40], 0)} = 2"
    unfolding l rc4 by (simp add: fact_numeral)
  show ?thesis
    by (intro conjI) (fact rotating_ok f d N run 1 rc 2 3 4)+
qed

subsection \<open>Sign and unity of the efficiency\<close>

lemma spec_trip_distance_segment: "spec_trip_distance G [u, v] = edge_length G u v"
  by (simp add: spec_trip_distance_def pairs_def)

lemma G_demo_wf: "wf_graph G_demo"
  by (simp add: wf_graph_def G_demo_def nodes_of_def)

text \<open>
  C2, as the code has it. On a well-formed graph, for every valid route whose trip
  distance is positive, the efficiency is the finite quotient of the great-circle distance
  between the route's ends by the trip distance, and it is never negative. It is positive
  exactly when that great-circle distance is positive, and it is 1 exactly when the trip
  distance equals the great-circle distance; a single segment whose length is the
  great-circle distance between its ends is one such route.
\<close>
theorem efficiency_sign_and_unity:
  assumes wf: "wf_graph G" and valid: "valid_route G route"
    and pos: "0 < spec_trip_distance G route"
  shows "\<exists>lat1 lon1 lat2 lon2 gc.
           node_attr G (hd route) ''y'' = Inr lat1 \<and> node_attr G (hd route) ''x'' = Inr lon1 \<and>
           node_attr G (last route) ''y'' = Inr lat2 \<and> node_attr G (last route) ''x'' = Inr lon2 \<and>
           gc = great_circle lat1 lon1 lat2 lon2 \<and>
           calc_efficiency G route = Inr (Fin (gc / spec_trip_distance G route)) \<and>
           0 \<le> gc / spec_trip_distance G route \<and>
           (0 < gc / spec_trip_distance G route \<longleftrightarrow> 0 < gc) \<and>
           (gc / spec_trip_distance G route = 1 \<longleftrightarrow> spec_trip_distance G route = gc) \<and>
           (\<forall>u v. route = [u, v] \<and> edge_length G u v = gc \<longrightarrow>
                    calc_efficiency G route = Inr (Fin 1))"
proof -
  let ?t = "spec_trip_distance G route"
  from calc_efficiency_on_valid[OF wf valid] obtain lat1 lon1 lat2 lon2 where
    c: "node_attr G (hd route) ''y'' = Inr lat1" "node_attr G (hd route) ''x'' = Inr lon1"
       "node_attr G (last route) ''y'' = Inr lat2" "node_attr G (last route) ''x'' = Inr lon2"
    and e: "calc_efficiency G route = Inr (np_truediv (great_circle lat1 lon1 lat2 lon2) ?t)"
    by blast
  define gc where "gc = great_circle lat1 lon1 lat2 lon2"
  have gc0: "0 \<le> gc" unfolding gc_def by (rule great_circle_nonneg)
  have e': "calc_efficiency G route = Inr (Fin (gc / ?t))"
    using e pos by (simp add: np_truediv_def gc_def)
  have nn: "0 \<le> gc / ?t" using gc0 pos by simp
  have p: "0 < gc / ?t \<longleftrightarrow> 0 < gc" using pos by (simp add: zero_less_divide_iff)
  have u: "gc / ?t = 1 \<longleftrightarrow> ?t = gc" using pos by (auto simp: field_simps)
  have seg: "\<forall>u v. route = [u, v] \<and> edge_length G u v = gc \<longrightarrow>
                    calc_efficiency G route = Inr (Fin 1)"
  proof (intro allI impI, elim conjE)
    fix u v assume r: "route = [u, v]" and l: "edge_length G u v = gc"
    then have "?t = gc" by (simp add: spec_trip_distance_segment)
    with u e' show "calc_efficiency G route = Inr (Fin 1)" by simp
  qed
  show ?thesis
    by (intro exI[of _ lat1] exI[of _ lon1] exI[of _ lat2] exI[of _ lon2] exI[of _ gc] conjI)
       (fact c gc_def e' nn p u seg)+
qed


text \<open>
  The claim as stated asks for a positive efficiency on every valid route of positive trip
  distance. Two distinct nodes at the same coordinates joined by an edge of length 5 give
  efficiency 0.
\<close>
theorem efficiency_positive_counterexample:
  "wf_graph G_demo \<and> valid_route G_demo [1, 2] \<and> 0 < spec_trip_distance G_demo [1, 2] \<and>
   calc_efficiency G_demo [1, 2] = Inr (Fin 0)"
proof -
  have "valid_route G_demo [1, 2]"
    by (simp add: valid_route_def G_demo_def pairs_def keydict_def)
  moreover have "spec_trip_distance G_demo [1, 2] = 5"
    by (simp add: spec_trip_distance_def G_demo_def pairs_def keydict_def edge_length_def
        map_filter_simps)
  moreover have "calc_efficiency G_demo [1, 2] = Inr (Fin 0)"
    by (simp add: calc_efficiency_def bind_err_def route_lengths_def subgraph_edges_def G_demo_def
        pairs_def select_edge_def keydict_def min_item_def weight_of_def py_first_def py_last_def
        node_attr_def np_truediv_def great_circle_def deg2rad_def)
  ultimately show ?thesis using G_demo_wf by simp
qed

lemma great_circle_antipodal: "great_circle 0 0 0 180 = pi * EARTH_RADIUS_M"
  by (simp add: great_circle_def deg2rad_def)

theorem efficiency_sign_and_unity_witness:
  "wf_graph G_demo \<and> valid_route G_demo [2, 3] \<and> 0 < spec_trip_distance G_demo [2, 3] \<and>
   calc_efficiency G_demo [2, 3] = Inr (Fin (pi * EARTH_RADIUS_M / 3)) \<and>
   0 < pi * EARTH_RADIUS_M / 3 \<and>
   wf_graph G_straight \<and> valid_route G_straight [1, 2] \<and>
   0 < spec_trip_distance G_straight [1, 2] \<and>
   edge_length G_straight 1 2 = great_circle 0 0 0 180 \<and>
   calc_efficiency G_straight [1, 2] = Inr (Fin 1)"
proof -
  have valid: "valid_route G_demo [2, 3]"
    by (simp add: valid_route_def G_demo_def pairs_def keydict_def)
  have trip: "spec_trip_distance G_demo [2, 3] = 3"
    by (simp add: spec_trip_distance_def G_demo_def pairs_def keydict_def edge_length_def
        map_filter_simps)
  have pos: "0 < spec_trip_distance G_demo [2, 3]" using trip by simp
  from efficiency_sign_and_unity[OF G_demo_wf valid pos] obtain lat1 lon1 lat2 lon2 gc where
    c: "node_attr G_demo (hd [2, 3]) ''y'' = Inr lat1" "node_attr G_demo (hd [2, 3]) ''x'' = Inr lon1"
       "node_attr G_demo (last [2, 3]) ''y'' = Inr lat2" "node_attr G_demo (last [2, 3]) ''x'' = Inr lon2"
    and gc: "gc = great_circle lat1 lon1 lat2 lon2"
    and e: "calc_efficiency G_demo [2, 3] = Inr (Fin (gc / spec_trip_distance G_demo [2, 3]))"
    and p: "0 < gc / spec_trip_distance G_demo [2, 3] \<longleftrightarrow> 0 < gc"
    by blast
  from c have "lat1 = 0" "lon1 = 0" "lat2 = 0" "lon2 = 180"
    by (simp_all add: node_attr_def G_demo_def)
  with gc have g: "gc = pi * EARTH_RADIUS_M" by (simp add: great_circle_antipodal)
  have pos3: "0 < pi * EARTH_RADIUS_M / 3" by (simp add: EARTH_RADIUS_M_def)
  have e3: "calc_efficiency G_demo [2, 3] = Inr (Fin (pi * EARTH_RADIUS_M / 3))"
    using e g trip by simp
  \<comment> \<open>a single segment as long as the great circle between its ends\<close>
  have wf': "wf_graph G_straight" by (simp add: wf_graph_def G_straight_def nodes_of_def)
  have valid': "valid_route G_straight [1, 2]"
    by (simp add: valid_route_def G_straight_def pairs_def keydict_def)
  have el: "edge_length G_straight 1 2 = pi * EARTH_RADIUS_M"
    by (simp add: G_straight_def keydict_def edge_length_def map_filter_simps EARTH_RADIUS_M_def)
  have trip': "spec_trip_distance G_straight [1, 2] = pi * EARTH_RADIUS_M"
    using el by (simp add: spec_trip_distance_def pairs_def)
  have pos': "0 < spec_trip_distance G_straight [1, 2]"
    unfolding trip' by (simp add: EARTH_RADIUS_M_def)
  have el': "edge_length G_straight 1 2 = great_circle 0 0 0 180"
    using el by (simp add: great_circle_antipodal)
  from efficiency_sign_and_unity[OF wf' valid' pos'] obtain a1 o1 a2 o2 gc' where
    c': "node_attr G_straight (hd [1, 2]) ''y'' = Inr a1" "node_attr G_straight (hd [1, 2]) ''x'' = Inr o1"
       "node_attr G_straight (last [1, 2]) ''y'' = Inr a2" "node_attr G_straight (last [1, 2]) ''x'' = Inr o2"
    and gc': "gc' = great_circle a1 o1 a2 o2"
    and seg: "\<forall>u v. [1, 2] = [u, v] \<and> edge_length G_straight u v = gc' \<longrightarrow>
                calc_efficiency G_straight [1, 2] = Inr (Fin 1)"
    by blast
  from c' have "a1 = 0" "o1 = 0" "a2 = 0" "o2 = 180"
    by (simp_all add: node_attr_def G_straight_def)
  with gc' el' have "edge_length G_straight 1 2 = gc'" by simp
  with seg have one: "calc_efficiency G_straight [1, 2] = Inr (Fin 1)" by blast
  show ?thesis
    by (intro conjI) (fact G_demo_wf valid pos e3 pos3 wf' valid' pos' el' one)+
qed

subsection \<open>What the efficiency computation does with a malformed route\<close>

lemma subgraph_edges_empty: "subgraph_edges G [] = []"
  by (auto simp: subgraph_edges_def filter_empty_conv)

lemma calc_efficiency_empty: "calc_efficiency G [] = Inl ValueError"
  by (simp add: calc_efficiency_def bind_err_def route_lengths_def subgraph_edges_empty)

lemma solved_routes: "p \<in> set (solved paths) \<Longrightarrow> \<exists>r. p = Some r \<and> 2 \<le> length r"
  by (cases p) (auto simp: solved_def)

lemma keydict_loops:
  "keydict G a a = map (\<lambda>((_, _, k), d). (k, d)) (subgraph_edges G [a])"
  by (simp add: keydict_def subgraph_edges_def)

lemma loops_without_length:
  "list_all (\<lambda>(_, d). map_of d ''length'' = None) (subgraph_edges G [a]) \<longleftrightarrow>
   list_all (\<lambda>(k, d). map_of d ''length'' = None) (keydict G a a)"
  by (auto simp: keydict_loops list_all_iff)

lemma great_circle_same_place: "great_circle lat lon lat lon = 0"
  by (simp add: great_circle_def)

lemma calc_efficiency_one_node:
  "calc_efficiency G [a] =
     (if keydict G a a = [] then Inl ValueError
      else if list_all (\<lambda>(k, d). map_of d ''length'' = None) (keydict G a a) then Inl KeyError
      else bind_err (node_attr G a ''y'') (\<lambda>lat.
           bind_err (node_attr G a ''x'') (\<lambda>lon. Inr NaN)))"
proof -
  have e: "subgraph_edges G [a] = [] \<longleftrightarrow> keydict G a a = []" by (simp add: keydict_loops)
  show ?thesis
    by (simp add: calc_efficiency_def route_lengths_def e loops_without_length pairs_def
        bind_err_def py_first_def py_last_def great_circle_same_place np_truediv_def
        split: sum.splits)
qed

lemma loop_node_coords:
  assumes wf: "wf_graph G" and l: "keydict G a a \<noteq> []"
  shows "\<exists>lat lon. node_attr G a ''y'' = Inr lat \<and> node_attr G a ''x'' = Inr lon"
proof -
  from l have "\<exists>e \<in> set (g_adj G). (\<lambda>((u, v, _), _). u = a \<and> v = a) e"
    by (simp add: keydict_def filter_empty_conv)
  then obtain k d where "((a, a, k), d) \<in> set (g_adj G)" by auto
  from wf_edge_nodes[OF wf this] have "a \<in> set (nodes_of G)" by simp
  from wf_node_coords[OF wf this] show ?thesis .
qed

text \<open>
  C6, as the code has it. \<open>calc_efficiency\<close> checks nothing itself. A route of fewer
  than two nodes fails only where the library call underneath does: with \<open>ValueError\<close>
  when the route is empty or its one node has no loop, the subgraph then having no edge,
  and with \<open>KeyError\<close> when none of the node's loops carries a length. A one-node route
  whose node has a loop with a length raises nothing: the sum over no rows is 0, the great
  circle from the node to itself is 0, and NumPy's division returns not-a-number. A valid
  route whose trip distance is 0 raises nothing either: the division returns not-a-number
  or an infinity. The guard against short routes is the caller's: every route among the
  solved trips is non-null and has at least two nodes.
\<close>
theorem efficiency_unguarded:
  "(length route < 2 \<and> (route = [] \<or> keydict G (hd route) (hd route) = []) \<longrightarrow>
      calc_efficiency G route = Inl ValueError) \<and>
   (length route < 2 \<and> route \<noteq> [] \<and> keydict G (hd route) (hd route) \<noteq> [] \<and>
    list_all (\<lambda>(k, d). map_of d ''length'' = None) (keydict G (hd route) (hd route)) \<longrightarrow>
      calc_efficiency G route = Inl KeyError) \<and>
   (wf_graph G \<and> length route < 2 \<and> route \<noteq> [] \<and>
    \<not> list_all (\<lambda>(k, d). map_of d ''length'' = None) (keydict G (hd route) (hd route)) \<longrightarrow>
      calc_efficiency G route = Inr NaN) \<and>
   (wf_graph G \<and> valid_route G route \<and> spec_trip_distance G route = 0 \<longrightarrow>
      calc_efficiency G route = Inr NaN \<or> calc_efficiency G route = Inr PosInf) \<and>
   (\<forall>p \<in> set (solved paths). \<exists>r. p = Some r \<and> 2 \<le> length r)"
proof (intro conjI impI ballI)
  assume a: "length route < 2 \<and> (route = [] \<or> keydict G (hd route) (hd route) = [])"
  show "calc_efficiency G route = Inl ValueError"
  proof (cases route)
    case Nil
    then show ?thesis by (simp add: calc_efficiency_empty)
  next
    case (Cons b rest)
    with a have "route = [b]" and "keydict G b b = []" by simp_all
    then show ?thesis by (simp add: calc_efficiency_one_node)
  qed
next
  assume a: "length route < 2 \<and> route \<noteq> [] \<and> keydict G (hd route) (hd route) \<noteq> [] \<and>
    list_all (\<lambda>(k, d). map_of d ''length'' = None) (keydict G (hd route) (hd route))"
  then obtain b where r: "route = [b]" by (cases route) simp_all
  with a have "keydict G b b \<noteq> []"
    and "list_all (\<lambda>(k, d). map_of d ''length'' = None) (keydict G b b)" by simp_all
  then show "calc_efficiency G route = Inl KeyError"
    unfolding r by (simp add: calc_efficiency_one_node)
next
  assume a: "wf_graph G \<and> length route < 2 \<and> route \<noteq> [] \<and>
    \<not> list_all (\<lambda>(k, d). map_of d ''length'' = None) (keydict G (hd route) (hd route))"
  then obtain b where r: "route = [b]" by (cases route) simp_all
  with a have wf: "wf_graph G"
    and some: "\<not> list_all (\<lambda>(k, d). map_of d ''length'' = None) (keydict G b b)" by simp_all
  from some have ne: "keydict G b b \<noteq> []" by auto
  from loop_node_coords[OF wf ne] obtain lat lon where
    "node_attr G b ''y'' = Inr lat" "node_attr G b ''x'' = Inr lon" by blast
  then show "calc_efficiency G route = Inr NaN"
    unfolding r using some ne by (simp add: calc_efficiency_one_node bind_err_def)
next
  assume a: "wf_graph G \<and> valid_route G route \<and> spec_trip_distance G route = 0"
  then obtain lat1 lon1 lat2 lon2 where
    e: "calc_efficiency G route =
          Inr (np_truediv (great_circle lat1 lon1 lat2 lon2) (spec_trip_distance G route))"
    using calc_efficiency_on_valid[of G route] by blast
  have "0 \<le> great_circle lat1 lon1 lat2 lon2" by (rule great_circle_nonneg)
  then show "calc_efficiency G route = Inr NaN \<or> calc_efficiency G route = Inr PosInf"
    using e a by (simp add: np_truediv_def)
next
  fix p assume "p \<in> set (solved paths)"
  then show "\<exists>r. p = Some r \<and> 2 \<le> length r" by (rule solved_routes)
qed

text \<open>
  The claim as stated asks for an error on every route of fewer than two nodes and for a
  division-by-zero error on every route of trip distance 0. A one-node route on a node
  with a loop gives not-a-number, and no error; so do two nodes at one place joined by an
  edge of length 0.
\<close>
theorem silent_nan_counterexample:
  "wf_graph G_loop \<and> length [1 :: node] < 2 \<and> calc_efficiency G_loop [1] = Inr NaN \<and>
   wf_graph G_stacked \<and> valid_route G_stacked [1, 2] \<and> spec_trip_distance G_stacked [1, 2] = 0 \<and>
   calc_efficiency G_stacked [1, 2] = Inr NaN"
proof -
  have 1: "wf_graph G_loop" by (simp add: wf_graph_def G_loop_def nodes_of_def)
  have 2: "length [1 :: node] < 2" by simp
  have 3: "calc_efficiency G_loop [1] = Inr NaN"
    by (simp add: calc_efficiency_def bind_err_def route_lengths_def subgraph_edges_def G_loop_def
        pairs_def py_first_def py_last_def node_attr_def np_truediv_def great_circle_def)
  have 4: "wf_graph G_stacked" by (simp add: wf_graph_def G_stacked_def nodes_of_def)
  have 5: "valid_route G_stacked [1, 2]"
    by (simp add: valid_route_def G_stacked_def pairs_def keydict_def)
  have 6: "spec_trip_distance G_stacked [1, 2] = 0"
    by (simp add: spec_trip_distance_def G_stacked_def pairs_def keydict_def edge_length_def
        map_filter_simps)
  have 7: "calc_efficiency G_stacked [1, 2] = Inr NaN"
    by (simp add: calc_efficiency_def bind_err_def route_lengths_def subgraph_edges_def G_stacked_def
        pairs_def select_edge_def keydict_def min_item_def weight_of_def py_first_def py_last_def
        node_attr_def np_truediv_def great_circle_def deg2rad_def)
  show ?thesis by (intro conjI) (fact 1 2 3 4 5 6 7)+
qed

theorem efficiency_unguarded_witness:
  "calc_efficiency G_stacked [] = Inl ValueError \<and>
   length [1 :: node] < 2 \<and> keydict G_demo (hd [1]) (hd [1]) = [] \<and>
   calc_efficiency G_demo [1] = Inl ValueError \<and>
   keydict (G_loop\<lparr>g_adj := [((1, 1, 0), [])]\<rparr>) (hd [1]) (hd [1]) \<noteq> [] \<and>
   list_all (\<lambda>(k, d). map_of d ''length'' = None)
     (keydict (G_loop\<lparr>g_adj := [((1, 1, 0), [])]\<rparr>) (hd [1]) (hd [1])) \<and>
   calc_efficiency (G_loop\<lparr>g_adj := [((1, 1, 0), [])]\<rparr>) [1] = Inl KeyError \<and>
   wf_graph G_loop \<and>
   \<not> list_all (\<lambda>(k, d). map_of d ''length'' = None) (keydict G_loop (hd [1]) (hd [1])) \<and>
   calc_efficiency G_loop [1] = Inr NaN \<and>
   wf_graph G_stacked \<and> valid_route G_stacked [1, 2] \<and> spec_trip_distance G_stacked [1, 2] = 0 \<and>
   (calc_efficiency G_stacked [1, 2] = Inr NaN \<or> calc_efficiency G_stacked [1, 2] = Inr PosInf) \<and>
   Some [1, 2] \<in> set (solved [None, Some [1], Some [1, 2]]) \<and>
   (\<exists>r. Some [1, 2] = Some r \<and> 2 \<le> length (r :: node list))"
proof -
  have len: "length [1 :: node] < 2" by simp
  have ne: "[1 :: node] \<noteq> []" by simp
  have k1: "keydict G_demo (hd [1]) (hd [1]) = []" by (simp add: keydict_def G_demo_def)
  have k2: "keydict (G_loop\<lparr>g_adj := [((1, 1, 0), [])]\<rparr>) (hd [1]) (hd [1]) \<noteq> []"
    "list_all (\<lambda>(k, d). map_of d ''length'' = None)
       (keydict (G_loop\<lparr>g_adj := [((1, 1, 0), [])]\<rparr>) (hd [1]) (hd [1]))"
    by (simp_all add: keydict_def)
  have wl: "wf_graph G_loop" by (simp add: wf_graph_def G_loop_def nodes_of_def)
  have k3: "\<not> list_all (\<lambda>(k, d). map_of d ''length'' = None) (keydict G_loop (hd [1]) (hd [1]))"
    by (simp add: keydict_def G_loop_def)
  have wf: "wf_graph G_stacked" by (simp add: wf_graph_def G_stacked_def nodes_of_def)
  have valid: "valid_route G_stacked [1, 2]"
    by (simp add: valid_route_def G_stacked_def pairs_def keydict_def)
  have trip: "spec_trip_distance G_stacked [1, 2] = 0"
    by (simp add: spec_trip_distance_def G_stacked_def pairs_def keydict_def edge_length_def
        map_filter_simps)
  have mem: "Some [1, 2] \<in> set (solved [None, Some [1], Some [1, 2 :: node]])"
    by (simp add: solved_def)
  from efficiency_unguarded[of "[]" G_stacked "[]"]
  have 0: "calc_efficiency G_stacked [] = Inl ValueError" by simp
  from efficiency_unguarded[of "[1]" G_demo "[]"] len k1
  have 1: "calc_efficiency G_demo [1] = Inl ValueError" by blast
  from efficiency_unguarded[of "[1]" "G_loop\<lparr>g_adj := [((1, 1, 0), [])]\<rparr>" "[]"] len ne k2
  have 2: "calc_efficiency (G_loop\<lparr>g_adj := [((1, 1, 0), [])]\<rparr>) [1] = Inl KeyError" by blast
  from efficiency_unguarded[of "[1]" G_loop "[]"] wl len ne k3
  have 3: "calc_efficiency G_loop [1] = Inr NaN" by blast
  note t = efficiency_unguarded[of "[1, 2]" G_stacked "[None, Some [1], Some [1, 2]]"]
  from t wf valid trip have 4: "calc_efficiency G_stacked [1, 2] = Inr NaN \<or>
      calc_efficiency G_stacked [1, 2] = Inr PosInf" by blast
  from t mem have 5: "\<exists>r. Some [1, 2] = Some r \<and> 2 \<le> length (r :: node list)" by blast
  show ?thesis
    by (intro conjI) (fact 0 len k1 1 k2 2 wl k3 3 wf valid trip 4 mem 5)+
qed

subsection \<open>Fractions outside the unit interval\<close>

lemma sample_succeeds:
  assumes perm: "draws_permutations permutation" and n: "0 \<le> n" "n \<le> int (length index)"
  shows "\<exists>r. sample permutation index n s = Inr r"
proof -
  let ?N = "length index"
  obtain p s' where ps: "permutation s ?N = (p, s')" by (cases "permutation s ?N")
  from perm have "set (fst (permutation s ?N)) = {..<?N}" by (simp add: draws_permutations_def)
  with ps have "set p = {..<?N}" by simp
  then have "set (take (nat n) p) \<subseteq> {..<?N}" using set_take_subset[of "nat n" p] by simp
  then have "list_all (\<lambda>i. i < ?N) (take (nat n) p)" by (auto simp: list_all_iff)
  then show ?thesis using n ps by (simp add: sample_def)
qed

lemma sample_refuses:
  "n < 0 \<or> int (length index) < n \<Longrightarrow> sample permutation index n s = Inl ValueError"
  by (auto simp: sample_def)

text \<open>
  Above \<open>2 ^ 53\<close> the conversion of the node count to a float may round upwards: on
  \<open>2 ^ 53 + 3\<close> nodes the fraction 1 gives an \<open>n\<close> of \<open>2 ^ 53 + 4\<close>, more than there are
  nodes.
\<close>
lemma float_product_above:
  "int_of_float (float_mul (py_float 9007199254740995) (Float 1 0)) = 9007199254740996"
  by code_simp

lemma removal_count_above_node_count:
  "int 9007199254740995 < removal_count 9007199254740995 (Float 1 0)"
  unfolding removal_count_def by (simp add: float_product_above)

text \<open>
  C7, as the code has it. The perturbation does not check the fraction. With
  \<open>n = int(len(G.nodes) * frac)\<close> it fails, with the sampler's \<open>ValueError\<close>, when
  \<open>n\<close> is negative or exceeds the number of nodes, and it succeeds otherwise; for
  every fraction between 0 and 1 it succeeds, the number of nodes being one that a float
  holds exactly (at most \<open>2 ^ 53\<close>: above it \<open>float(len(G.nodes))\<close> may exceed the number
  of nodes, and so may \<open>n\<close> at the fraction 1).
\<close>
theorem perturb_fails_only_in_sampler:
  assumes perm: "draws_permutations permutation"
  shows "(removal_count (length (nodes_of G)) fraction < 0 \<or>
          int (length (nodes_of G)) < removal_count (length (nodes_of G)) fraction
            \<longrightarrow> perturb permutation G fraction s = Inl ValueError) \<and>
         (0 \<le> removal_count (length (nodes_of G)) fraction \<and>
          removal_count (length (nodes_of G)) fraction \<le> int (length (nodes_of G))
            \<longrightarrow> (\<exists>r. perturb permutation G fraction s = Inr r)) \<and>
         (0 \<le> float_val fraction \<and> float_val fraction \<le> 1 \<and>
          int (length (nodes_of G)) \<le> 2 ^ 53
            \<longrightarrow> (\<exists>r. perturb permutation G fraction s = Inr r))"
proof -
  let ?N = "length (nodes_of G)"
  let ?n = "removal_count ?N fraction"
  have bad: "?n < 0 \<or> int ?N < ?n \<Longrightarrow> perturb permutation G fraction s = Inl ValueError"
    by (simp add: perturb_def sample_refuses)
  have good: "\<exists>r. perturb permutation G fraction s = Inr r" if "0 \<le> ?n" "?n \<le> int ?N"
  proof -
    from sample_succeeds[OF perm that, of s] obtain r where
      "sample permutation (nodes_of G) ?n s = Inr r" by blast
    then show ?thesis by (cases r) (simp add: perturb_def)
  qed
  have unit: "0 \<le> ?n \<and> ?n \<le> int ?N"
    if "0 \<le> float_val fraction \<and> float_val fraction \<le> 1 \<and> int ?N \<le> 2 ^ 53"
  proof -
    from that have "int ?N \<le> 2 ^ 53" "0 \<le> float_val fraction" "float_val fraction \<le> 1"
      by simp_all
    from removal_count_bracket[OF this] show ?thesis by blast
  qed
  show ?thesis using bad good unit by blast
qed

text \<open>
  The claim as stated asks for a failure on every fraction outside the unit interval.
  On four nodes the fraction \<open>9/8\<close>, which is a float, gives \<open>n = int(4.5) = 4\<close>: every
  node is removed and nothing fails.
\<close>
theorem fraction_above_one_counterexample:
  "1 < float_val (Float 9 (- 3)) \<and>
   perturb rotating G_square (Float 9 (- 3)) 0 =
     Inr ([10, 20, 30, 40], \<lparr> g_node = [], g_adj = [] \<rparr>, 1)"
proof -
  have l: "length (nodes_of G_square) = 4" by (simp add: G_square_def nodes_of_def)
  have rc: "removal_count 4 (Float 9 (- 3)) = 4" by code_simp
  have smp: "sample rotating (nodes_of G_square) 4 0 = Inr ([10, 20, 30, 40], 1)"
    by (simp add: sample_def rotating_def G_square_def nodes_of_def)
  have rem: "remove_nodes_from G_square [10, 20, 30, 40] = \<lparr> g_node = [], g_adj = [] \<rparr>"
    by (simp add: remove_nodes_from_def remove_node_def G_square_def)
  have 1: "1 < float_val (Float 9 (- 3))" by simp
  have 2: "perturb rotating G_square (Float 9 (- 3)) 0 =
     Inr ([10, 20, 30, 40], \<lparr> g_node = [], g_adj = [] \<rparr>, 1)"
    unfolding perturb_def l rc by (simp add: smp rem)
  show ?thesis by (intro conjI) (fact 1 2)+
qed

theorem perturb_fails_only_in_sampler_witness:
  "draws_permutations rotating \<and>
   int (length (nodes_of G_square)) < removal_count (length (nodes_of G_square)) (Float 3 (- 1)) \<and>
   perturb rotating G_square (Float 3 (- 1)) 0 = Inl ValueError \<and>
   removal_count (length (nodes_of G_square)) (Float (- 1) (- 1)) < 0 \<and>
   perturb rotating G_square (Float (- 1) (- 1)) 0 = Inl ValueError \<and>
   0 \<le> removal_count (length (nodes_of G_square)) (Float 9 (- 3)) \<and>
   removal_count (length (nodes_of G_square)) (Float 9 (- 3)) \<le> int (length (nodes_of G_square)) \<and>
   (\<exists>r. perturb rotating G_square (Float 9 (- 3)) 0 = Inr r) \<and>
   0 \<le> float_val float_0_1 \<and> float_val float_0_1 \<le> 1 \<and>
   int (length (nodes_of G_square)) \<le> 2 ^ 53 \<and>
   (\<exists>r. perturb rotating G_square float_0_1 0 = Inr r)"
proof -
  have l: "length (nodes_of G_square) = 4" by (simp add: G_square_def nodes_of_def)
  have r1: "removal_count 4 (Float 3 (- 1)) = 6" by code_simp
  have r2: "removal_count 4 (Float (- 1) (- 1)) = - 2" by code_simp
  have r3: "removal_count 4 (Float 9 (- 3)) = 4" by code_simp
  have a: "int (length (nodes_of G_square)) < removal_count (length (nodes_of G_square)) (Float 3 (- 1))"
    unfolding l r1 by simp
  have b: "removal_count (length (nodes_of G_square)) (Float (- 1) (- 1)) < 0"
    unfolding l r2 by simp
  have m: "0 \<le> removal_count (length (nodes_of G_square)) (Float 9 (- 3))"
    "removal_count (length (nodes_of G_square)) (Float 9 (- 3)) \<le> int (length (nodes_of G_square))"
    unfolding l r3 by simp_all
  have c: "0 \<le> float_val float_0_1" "float_val float_0_1 \<le> 1"
    by (simp_all add: float_0_1_def)
  have N: "int (length (nodes_of G_square)) \<le> 2 ^ 53" unfolding l by simp
  from perturb_fails_only_in_sampler[OF rotating_ok, of G_square "Float 3 (- 1)" 0] a
  have 1: "perturb rotating G_square (Float 3 (- 1)) 0 = Inl ValueError" by blast
  from perturb_fails_only_in_sampler[OF rotating_ok, of G_square "Float (- 1) (- 1)" 0] b
  have 2: "perturb rotating G_square (Float (- 1) (- 1)) 0 = Inl ValueError" by blast
  from perturb_fails_only_in_sampler[OF rotating_ok, of G_square "Float 9 (- 3)" 0] m
  have 3: "\<exists>r. perturb rotating G_square (Float 9 (- 3)) 0 = Inr r" by blast
  from perturb_fails_only_in_sampler[OF rotating_ok, of G_square float_0_1 0] c N
  have 4: "\<exists>r. perturb rotating G_square float_0_1 0 = Inr r" by blast
  show ?thesis
    by (intro conjI) (fact rotating_ok a 1 b 2 m 3 c N 4)+
qed

subsection \<open>Determinism under a seed\<close>





subsection \<open>Solved trips\<close>

lemma is_solved_iff: "is_solved p \<longleftrightarrow> (\<exists>r. p = Some r \<and> 2 \<le> length r)"
  by (cases p) auto

lemma count_list_filter:
  "count_list (filter P xs) x = (if P x then count_list xs x else 0)"
  by (induction xs) auto

lemma nearest_nodes_length: "nearest_nodes metric G XY = Inr ns \<Longrightarrow> length ns = length XY"
  by (auto simp: nearest_nodes_def split: if_splits sum.splits)

lemma all_paths_length:
  "length homes = n \<Longrightarrow> length works = n \<Longrightarrow> length (all_paths sp G homes works) = n"
  by (simp add: all_paths_def)

lemma simulate_trips_result:
  assumes "simulate_trips sp metric G od = Inr (paths, slv)"
  shows "slv = solved paths \<and> length paths = length od"
proof -
  from assms obtain homes works where
    h: "home_nodes metric G od = Inr homes" and w: "work_nodes metric G od = Inr works"
    and p: "paths = all_paths sp G homes works" and s: "slv = solved paths"
    by (auto simp: simulate_trips_def bind_err_def Let_def split: sum.splits)
  from h have "length homes = length od" by (auto simp: home_nodes_def dest: nearest_nodes_length)
  moreover from w have "length works = length od"
    by (auto simp: work_nodes_def dest: nearest_nodes_length)
  ultimately show ?thesis using p s by (simp add: all_paths_length)
qed

text \<open>
  C8. The solved trips are exactly the results that are non-null and have at least two
  nodes, each as often as it occurs among the results; no null result is among them; and
  a batch simulation yields one result per origin-destination pair, so the number of
  solved trips is at most the number of pairs.
\<close>
theorem solved_exactly_nonnull_routes:
  "set (solved paths) = {p \<in> set paths. \<exists>r. p = Some r \<and> 2 \<le> length r} \<and>
   None \<notin> set (solved paths) \<and>
   (\<forall>p. count_list (solved paths) p =
          (if \<exists>r. p = Some r \<and> 2 \<le> length r then count_list paths p else 0)) \<and>
   length (solved paths) \<le> length paths \<and>
   (\<forall>all slv. simulate_trips sp metric G od = Inr (all, slv) \<longrightarrow>
      slv = solved all \<and> length all = length od \<and> length slv \<le> length od)"
proof (intro conjI allI impI)
  show "set (solved paths) = {p \<in> set paths. \<exists>r. p = Some r \<and> 2 \<le> length r}"
    by (auto simp: solved_def is_solved_iff)
  show "None \<notin> set (solved paths)" by (simp add: solved_def)
  show "count_list (solved paths) p =
          (if \<exists>r. p = Some r \<and> 2 \<le> length r then count_list paths p else 0)" for p
    unfolding solved_def count_list_filter is_solved_iff ..
  show "length (solved paths) \<le> length paths" by (simp add: solved_def)
next
  fix all slv assume a: "simulate_trips sp metric G od = Inr (all, slv)"
  from simulate_trips_result[OF a] show "slv = solved all" "length all = length od" by simp_all
  then show "length slv \<le> length od" by (metis length_filter_le solved_def)
qed

lemma simulate_demo:
  "simulate_trips sp_demo manhattan G_square od_demo =
     Inr ([Some [10, 20], None, Some [30]], [Some [10, 20]])"
  by (simp add: simulate_trips_def bind_err_def home_nodes_def work_nodes_def nearest_nodes_def
      node_xy_def nearest_node_def manhattan_def all_paths_def solved_def sp_demo_def
      od_demo_def G_square_def Let_def)

theorem solved_exactly_nonnull_routes_witness:
  "simulate_trips sp_demo manhattan G_square od_demo =
     Inr ([Some [10, 20], None, Some [30]], [Some [10, 20]]) \<and>
   [Some [10, 20]] = solved [Some [10, 20], None, Some [30 :: node]] \<and>
   length [Some [10, 20], None, Some [30 :: node]] = length od_demo \<and>
   length [Some [10 :: node, 20]] \<le> length od_demo \<and>
   None \<notin> set (solved [Some [10, 20], None, Some [30 :: node]])"
proof -
  note t = solved_exactly_nonnull_routes[of "[Some [10, 20], None, Some [30]]" sp_demo manhattan
      G_square od_demo]
  from t simulate_demo have
    "[Some [10, 20]] = solved [Some [10, 20], None, Some [30 :: node]] \<and>
     length [Some [10, 20], None, Some [30 :: node]] = length od_demo \<and>
     length [Some [10 :: node, 20]] \<le> length od_demo" by blast
  moreover from t have "None \<notin> set (solved [Some [10, 20], None, Some [30 :: node]])" by blast
  ultimately show ?thesis using simulate_demo by blast
qed


subsection \<open>Before and after the perturbation\<close>

text \<open>
  C9. With at least one trip solved before, the fraction now unsolvable is
  \<open>1 - solved_after / solved_before\<close>; 80 after and 100 before give \<open>1/5\<close>. With a
  positive mean efficiency before, the relative loss of efficiency is
  \<open>1 - mean_after / mean_before\<close>. With no trip solved before, the first ratio raises
  \<open>ZeroDivisionError\<close> and the second is not-a-number; with a mean of zero before, the
  second is not a finite number.
\<close>
theorem comparative_metrics:
  "(0 < length paths \<longrightarrow>
      fraction_unsolvable paths_per paths =
        Inr (1 - real (length paths_per) / real (length paths))) \<and>
   (length paths_per = 80 \<and> length paths = 100 \<longrightarrow>
      fraction_unsolvable paths_per paths = Inr (1 / 5)) \<and>
   (length paths = 0 \<longrightarrow> fraction_unsolvable paths_per paths = Inl ZeroDivisionError) \<and>
   (pd_mean te_per = Fin ma \<and> pd_mean te = Fin mb \<and> 0 < mb \<longrightarrow>
      efficiency_loss te_per te = Fin (1 - ma / mb)) \<and>
   (pd_mean te_per = Fin ma \<and> pd_mean te = Fin 0 \<longrightarrow>
      (\<forall>r. efficiency_loss te_per te \<noteq> Fin r)) \<and>
   efficiency_loss te_per [] = NaN"
proof (intro conjI impI)
  show "fraction_unsolvable paths_per paths =
        Inr (1 - real (length paths_per) / real (length paths))" if "0 < length paths"
    using that by (simp add: fraction_unsolvable_def py_truediv_def)
  show "fraction_unsolvable paths_per paths = Inr (1 / 5)"
    if "length paths_per = 80 \<and> length paths = 100"
    using that by (simp add: fraction_unsolvable_def py_truediv_def)
  show "fraction_unsolvable paths_per paths = Inl ZeroDivisionError" if "length paths = 0"
    using that by (simp add: fraction_unsolvable_def py_truediv_def)
  show "efficiency_loss te_per te = Fin (1 - ma / mb)"
    if "pd_mean te_per = Fin ma \<and> pd_mean te = Fin mb \<and> 0 < mb"
    using that by (simp add: efficiency_loss_def np_truediv_def)
  show "\<forall>r. efficiency_loss te_per te \<noteq> Fin r"
    if "pd_mean te_per = Fin ma \<and> pd_mean te = Fin 0"
    using that by (simp add: efficiency_loss_def np_truediv_def)
  have "pd_mean [] = NaN" by (simp add: pd_mean_def)
  then show "efficiency_loss te_per [] = NaN"
    by (cases "pd_mean te_per") (simp_all add: efficiency_loss_def)
qed

theorem comparative_metrics_witness:
  "length (replicate 80 (Some [1 :: node, 2])) = 80 \<and>
   length (replicate 100 (Some [1 :: node, 2])) = 100 \<and>
   0 < length (replicate 100 (Some [1 :: node, 2])) \<and>
   fraction_unsolvable (replicate 80 (Some [1 :: node, 2])) (replicate 100 (Some [1, 2])) = Inr (1 / 5) \<and>
   pd_mean [Fin (1/2), Fin (7/10)] = Fin (3/5) \<and> pd_mean [Fin (1/2), Fin 1] = Fin (3/4) \<and>
   efficiency_loss [Fin (1/2), Fin (7/10)] [Fin (1/2), Fin 1] = Fin (1 / 5) \<and>
   pd_mean [Fin 0, NaN] = Fin 0 \<and>
   (\<forall>r. efficiency_loss [Fin (1/2), Fin (7/10)] [Fin 0, NaN] \<noteq> Fin r) \<and>
   efficiency_loss [Fin (1/2), Fin (7/10)] [Fin 0, NaN] = NegInf \<and>
   length ([] :: node list option list) = 0 \<and>
   fraction_unsolvable [] ([] :: node list option list) = Inl ZeroDivisionError \<and>
   efficiency_loss [] [] = NaN"
proof -
  have l: "length (replicate 80 (Some [1 :: node, 2])) = 80"
    "length (replicate 100 (Some [1 :: node, 2])) = 100" by simp_all
  have lp: "0 < length (replicate 100 (Some [1 :: node, 2]))" by simp
  have m1: "pd_mean [Fin (1/2), Fin (7/10)] = Fin (3/5)"
    by (simp add: pd_mean_def fin_val_def)
  have m2: "pd_mean [Fin (1/2), Fin 1] = Fin (3/4)"
    by (simp add: pd_mean_def fin_val_def)
  have m0: "pd_mean [Fin 0, NaN] = Fin 0"
    by (simp add: pd_mean_def fin_val_def)
  note t1 = comparative_metrics[of "replicate 100 (Some [1 :: node, 2])"
      "replicate 80 (Some [1 :: node, 2])" "[Fin (1/2), Fin (7/10)]" "3/5" "[Fin (1/2), Fin 1]" "3/4"]
  from t1 lp have "fraction_unsolvable (replicate 80 (Some [1 :: node, 2]))
      (replicate 100 (Some [1, 2])) =
      Inr (1 - real (length (replicate 80 (Some [1 :: node, 2]))) /
               real (length (replicate 100 (Some [1 :: node, 2]))))" by blast
  then have a: "fraction_unsolvable (replicate 80 (Some [1 :: node, 2]))
      (replicate 100 (Some [1, 2])) = Inr (1 / 5)" by simp
  from t1 m1 m2 have "efficiency_loss [Fin (1/2), Fin (7/10)] [Fin (1/2), Fin 1] =
      Fin (1 - (3/5) / (3/4))" by simp
  then have b: "efficiency_loss [Fin (1/2), Fin (7/10)] [Fin (1/2), Fin 1] = Fin (1 / 5)" by simp
  note t2 = comparative_metrics[of "[] :: node list option list" "[]" "[Fin (1/2), Fin (7/10)]" "3/5"
      "[Fin 0, NaN]" 0]
  from t2 m1 m0 have nf: "\<forall>r. efficiency_loss [Fin (1/2), Fin (7/10)] [Fin 0, NaN] \<noteq> Fin r"
    by blast
  have inf: "efficiency_loss [Fin (1/2), Fin (7/10)] [Fin 0, NaN] = NegInf"
    by (simp add: efficiency_loss_def m1 m0 np_truediv_def)
  have z: "length ([] :: node list option list) = 0" by simp
  from t2 z have c: "fraction_unsolvable [] ([] :: node list option list) = Inl ZeroDivisionError"
    by blast
  from comparative_metrics[of "[] :: node list option list" "[]" "[]"]
  have e: "efficiency_loss [] [] = NaN" by blast
  show ?thesis
    by (intro conjI) (fact l lp a m1 m2 b m0 nf inf z c e)+
qed

subsection \<open>Route ends after the perturbation\<close>

lemma map_err_node_xy:
  "map_err node_xy nds = Inr pts \<Longrightarrow> map fst pts = map fst nds"
proof (induction nds arbitrary: pts)
  case Nil then show ?case by simp
next
  case (Cons nd nds)
  obtain n d where nd: "nd = (n, d)" by (cases nd)
  from Cons.prems obtain q qs where q: "node_xy nd = Inr q" and qs: "map_err node_xy nds = Inr qs"
    and pts: "pts = q # qs" by (auto split: sum.splits)
  from q nd have "fst q = n" by (auto simp: node_xy_def split: option.splits)
  with Cons.IH[OF qs] pts nd show ?case by simp
qed

lemma nearest_node_member:
  assumes "pts \<noteq> []"
  shows "nearest_node metric pts p \<in> fst ` set pts"
  unfolding nearest_node_def using arg_min_list_in[OF assms] by (rule imageI)

lemma nearest_nodes_in_graph:
  assumes "nearest_nodes metric G XY = Inr ns"
  shows "set ns \<subseteq> set (nodes_of G)"
proof -
  from assms obtain pts where ne: "g_node G \<noteq> []" and pts: "map_err node_xy (g_node G) = Inr pts"
    and ns: "ns = map (nearest_node metric pts) XY"
    by (auto simp: nearest_nodes_def split: if_splits sum.splits)
  from map_err_node_xy[OF pts] have m: "map fst pts = nodes_of G" by (simp add: nodes_of_def)
  then have "pts \<noteq> []" using ne by (auto simp: nodes_of_def)
  then have "nearest_node metric pts p \<in> set (nodes_of G)" for p
    using nearest_node_member[of pts metric p] m by (metis set_map)
  then show ?thesis using ns by auto
qed

lemma snapped_to_survivors:
  assumes per: "nearest_nodes metric (remove_nodes_from G removed) XY = Inr ns_per"
  shows "set ns_per \<subseteq> set (nodes_of G) - set removed \<and>
         (\<forall>ns i. nearest_nodes metric G XY = Inr ns \<and> i < length XY \<and> ns ! i \<in> set removed
            \<longrightarrow> ns_per ! i \<in> set (nodes_of G) - set removed \<and> ns_per ! i \<noteq> ns ! i)"
proof -
  from nearest_nodes_in_graph[OF per]
  have sub: "set ns_per \<subseteq> set (nodes_of G) - set removed"
    by (auto simp: nodes_of_remove_nodes_from)
  have len: "length ns_per = length XY" using per by (rule nearest_nodes_length)
  show ?thesis
  proof (intro conjI allI impI)
    show "set ns_per \<subseteq> set (nodes_of G) - set removed" by (rule sub)
  next
    fix ns i
    assume a: "nearest_nodes metric G XY = Inr ns \<and> i < length XY \<and> ns ! i \<in> set removed"
    then have "ns_per ! i \<in> set ns_per" using len by simp
    with sub have s: "ns_per ! i \<in> set (nodes_of G) - set removed" by blast
    then show "ns_per ! i \<in> set (nodes_of G) - set removed" .
    from s a show "ns_per ! i \<noteq> ns ! i" by auto
  qed
qed

text \<open>
  C10. In the run on the perturbed graph the home and work nodes are looked up again, on
  the perturbed graph: each is a node that survived, so wherever the node found on the
  base graph was removed, the node found on the perturbed graph differs from it, the
  coordinates of the pair being the same.
\<close>
theorem endpoints_snapped_to_simulated_graph:
  assumes h: "home_nodes metric (remove_nodes_from G removed) od = Inr home_nodes_per"
    and w: "work_nodes metric (remove_nodes_from G removed) od = Inr work_nodes_per"
  shows "set home_nodes_per \<union> set work_nodes_per \<subseteq> set (nodes_of G) - set removed \<and>
         (\<forall>hs i. home_nodes metric G od = Inr hs \<and> i < length od \<and> hs ! i \<in> set removed
            \<longrightarrow> home_nodes_per ! i \<noteq> hs ! i) \<and>
         (\<forall>ws i. work_nodes metric G od = Inr ws \<and> i < length od \<and> ws ! i \<in> set removed
            \<longrightarrow> work_nodes_per ! i \<noteq> ws ! i)"
proof -
  note sh = snapped_to_survivors[OF h[unfolded home_nodes_def]]
  note sw = snapped_to_survivors[OF w[unfolded work_nodes_def]]
  have 1: "set home_nodes_per \<union> set work_nodes_per \<subseteq> set (nodes_of G) - set removed"
    using sh sw by blast
  have 2: "\<forall>hs i. home_nodes metric G od = Inr hs \<and> i < length od \<and> hs ! i \<in> set removed
            \<longrightarrow> home_nodes_per ! i \<noteq> hs ! i"
    using sh by (simp add: home_nodes_def)
  have 3: "\<forall>ws i. work_nodes metric G od = Inr ws \<and> i < length od \<and> ws ! i \<in> set removed
            \<longrightarrow> work_nodes_per ! i \<noteq> ws ! i"
    using sw by (simp add: work_nodes_def)
  from 1 2 3 show ?thesis by (intro conjI)
qed

lemma home_before: "home_nodes manhattan G_square od_demo = Inr [10, 20, 30]"
  by (simp add: home_nodes_def nearest_nodes_def node_xy_def nearest_node_def manhattan_def
      od_demo_def G_square_def Let_def)

lemma home_after:
  "home_nodes manhattan (remove_nodes_from G_square [20, 30]) od_demo = Inr [10, 10, 40]"
  by (simp add: home_nodes_def nearest_nodes_def node_xy_def nearest_node_def manhattan_def
      od_demo_def G_square_def Let_def remove_nodes_from_def remove_node_def)

lemma work_after:
  "work_nodes manhattan (remove_nodes_from G_square [20, 30]) od_demo = Inr [10, 40, 40]"
  by (simp add: work_nodes_def nearest_nodes_def node_xy_def nearest_node_def manhattan_def
      od_demo_def G_square_def Let_def remove_nodes_from_def remove_node_def)

theorem endpoints_snapped_to_simulated_graph_witness:
  "home_nodes manhattan (remove_nodes_from G_square [20, 30]) od_demo = Inr [10, 10, 40] \<and>
   work_nodes manhattan (remove_nodes_from G_square [20, 30]) od_demo = Inr [10, 40, 40] \<and>
   home_nodes manhattan G_square od_demo = Inr [10, 20, 30] \<and>
   (1::nat) < length od_demo \<and> [10, 20, 30 :: node] ! 1 \<in> set [20, 30] \<and>
   [10, 10, 40 :: node] ! 1 \<noteq> [10, 20, 30] ! 1 \<and>
   set [10, 10, 40 :: node] \<union> set [10, 40, 40] \<subseteq> set (nodes_of G_square) - set [20, 30]"
proof -
  note t = endpoints_snapped_to_simulated_graph[OF home_after work_after]
  have i: "(1::nat) < length od_demo" by (simp add: od_demo_def)
  have r: "[10, 20, 30 :: node] ! 1 \<in> set [20, 30]" by simp
  from t home_before i r have "[10, 10, 40 :: node] ! 1 \<noteq> [10, 20, 30] ! 1" by blast
  moreover from t have "set [10, 10, 40 :: node] \<union> set [10, 40, 40] \<subseteq>
      set (nodes_of G_square) - set [20, 30]" by blast
  ultimately show ?thesis using home_after work_after home_before i r by blast
qed


subsection \<open>What the perturbation leaves alone, and what the copy shares\<close>


























end
